theory Spec2Isabelle
  imports Main
begin

section \<open>Data model of the back end (src/back/responses.ts)\<close>

text \<open>
  The handlers registered by \<open>registerRequestCallbacks\<close> are modelled as functions on
  an explicit state. A handler is run to completion: every \<open>await\<close> is taken to resume
  before another request is dispatched. JavaScript strings are lists of code units;
  the code units modelled are those in the range 0 to 255.
\<close>

type_synonym channel = nat

type_synonym BackInit = nat

datatype js_error = ENOENT | TypeError

datatype 'a promise = Resolved 'a | Rejected js_error 'a

record AdditionalApp =
  addapp_id :: string
  parentGame :: string

record Game =
  game_id :: string
  title :: string
  platform :: string
  tags :: string
  developer :: string
  publisher :: string
  addApps :: "AdditionalApp list"

record ViewGame =
  view_id :: string
  view_title :: string
  view_platform :: string
  view_genre :: string
  view_developer :: string
  view_publisher :: string

record GamePlaylist =
  filename :: string
  playlist_title :: string
  playlist_games :: "string list"

record BackQuery =
  extreme :: bool
  broken :: bool
  library :: "string option"
  search :: string
  orderBy :: string
  orderReverse :: string
  playlistId :: "string option"

record BackQueryChache =
  query :: BackQuery
  games :: "Game list"
  viewGames :: "ViewGame list"

record FilterGameOpts =
  filter_search :: string
  filter_extreme :: bool
  filter_broken :: bool
  filter_playlist :: "GamePlaylist option"

datatype BackOut =
  GET_MAIN_INIT_DATA | GENERIC_RESPONSE | INIT_EVENT | LOCALE_UPDATE | BROWSE_CHANGE
  | BROWSE_VIEW_PAGE_RESPONSE | IMAGE_CHANGE | LANGUAGE_CHANGE | UPDATE_PREFERENCES_RESPONSE
  | QUIT

datatype response_data =
  NoData
  | InitEventData "BackInit list"
  | BrowseChangeData "string option" nat
  | BrowseViewPageResponseData "ViewGame list" int nat
  | BrowseViewIndexResponseData int
  | QuickSearchResponseData "string option" "nat option"

record WrappedResponse =
  res_id :: string
  res_type :: BackOut
  res_data :: response_data

datatype file_content = PlaylistJson GamePlaylist | Blob string

text \<open>
  The collaborators that responses.ts imports but does not define: the catalog store
  \<open>GameManager\<close> over a database of type \<open>'db\<close>, \<open>uuid\<close> (the k-th call of one handler
  run returns \<open>uuid k\<close>), the folder names \<open>LOGOS\<close> and \<open>SCREENSHOTS\<close>, the digest
  \<open>createHash('sha256').update(_).digest('base64')\<close> and \<open>sanitizeFilename\<close>. They are
  parameters of the model; calls into the catalog store are taken to resolve.
\<close>

record 'db Collaborators =
  findGame :: "string \<Rightarrow> 'db \<Rightarrow> Game option"
  findGames :: "FilterGameOpts \<Rightarrow> 'db \<Rightarrow> Game list"
  updateGame :: "Game \<Rightarrow> 'db \<Rightarrow> 'db"
  removeGameAndAddApps :: "string \<Rightarrow> 'db \<Rightarrow> 'db"
  countGames :: "'db \<Rightarrow> nat"
  uuid :: "nat \<Rightarrow> string"
  LOGOS :: string
  SCREENSHOTS :: string
  sha256_base64 :: "string \<Rightarrow> string"
  sanitizeFilename :: "string \<Rightarrow> string"

text \<open>
  \<open>BackState\<close>, restricted to the fields the modelled handlers touch. \<open>files\<close> is the
  file system, \<open>initEmitter\<close> the pending \<open>once\<close> listeners (event name and the socket
  the listener answers to), \<open>sent\<close> the envelopes written to sockets so far.
\<close>

record 'db BackState =
  queries :: "string \<rightharpoonup> BackQueryChache"
  db :: 'db
  playlists :: "GamePlaylist list"
  playlistFolder :: "string option"
  flashpointPath :: string
  imageFolderPath :: string
  files :: "string \<rightharpoonup> file_content"
  init :: "(BackInit \<times> bool) list"
  initEmitter :: "(BackInit \<times> channel) list"
  sent :: "(channel \<times> WrappedResponse) list"

text \<open>Modelled from the spec: \<open>respond\<close> of SocketServer is not among the sources.
  Section 4.1: a handler sends a ResponseEnvelope to the channel of its request. Sending
  appends the envelope to what was written to sockets so far.\<close>

definition respond :: "channel \<Rightarrow> WrappedResponse \<Rightarrow> 'db BackState \<Rightarrow> 'db BackState" where
  "respond target res s = s\<lparr>sent := sent s @ [(target, res)]\<rparr>"

section \<open>Strings, paths and files\<close>

definition startsWith :: "string \<Rightarrow> string \<Rightarrow> bool" where
  "startsWith s p = (take (length p) s = p)"

definition endsWith :: "string \<Rightarrow> string \<Rightarrow> bool" where
  "endsWith s p = (length p \<le> length s \<and> drop (length s - length p) s = p)"

text \<open>\<open>String.prototype.toLowerCase\<close> on code units below 256: A to Z and the
  Latin-1 capitals (0xC0 to 0xDE without the multiplication sign) move up by 32.\<close>

definition toLowerCase_char :: "char \<Rightarrow> char" where
  "toLowerCase_char c =
     (let n = (of_char c :: nat)
      in if (0x41 \<le> n \<and> n \<le> 0x5A) \<or> (0xC0 \<le> n \<and> n \<le> 0xDE \<and> n \<noteq> 0xD7)
         then char_of (n + 32) else c)"

definition toLowerCase :: "string \<Rightarrow> string" where
  "toLowerCase s = map toLowerCase_char s"

text \<open>\<open>substr(start, len)\<close> for non-negative arguments.\<close>

definition substr :: "string \<Rightarrow> nat \<Rightarrow> nat \<Rightarrow> string" where
  "substr s start len = take len (drop start s)"

text \<open>\<open>path.join\<close> of Node, in its POSIX flavour: the non-empty arguments are joined
  with a slash and the result is normalised. Normalising drops empty and \<open>.\<close> segments,
  lets a \<open>..\<close> segment remove the segment before it (or stay, when a relative path has
  nothing left to remove), and keeps a leading and a trailing slash.\<close>

fun split_slash :: "string \<Rightarrow> string list" where
  "split_slash [] = [[]]"
| "split_slash (c # cs) =
     (if c = CHR ''/'' then [] # split_slash cs
      else (case split_slash cs of [] \<Rightarrow> [[c]] | seg # segs \<Rightarrow> (c # seg) # segs))"

fun join_slash :: "string list \<Rightarrow> string" where
  "join_slash [] = []"
| "join_slash [seg] = seg"
| "join_slash (seg # segs) = seg @ ''/'' @ join_slash segs"

fun normalizeString :: "string list \<Rightarrow> bool \<Rightarrow> string list \<Rightarrow> string list" where
  "normalizeString [] allowAboveRoot res = res"
| "normalizeString (seg # segs) allowAboveRoot res =
     (if seg = [] \<or> seg = ''.'' then normalizeString segs allowAboveRoot res
      else if seg = ''..'' then
        (if res \<noteq> [] \<and> last res \<noteq> ''..'' then normalizeString segs allowAboveRoot (butlast res)
         else if allowAboveRoot then normalizeString segs allowAboveRoot (res @ [''..''])
         else normalizeString segs allowAboveRoot res)
      else normalizeString segs allowAboveRoot (res @ [seg]))"

definition path_normalize :: "string \<Rightarrow> string" where
  "path_normalize path =
     (if path = [] then ''.''
      else
        (let isAbsolute = (hd path = CHR ''/'');
             trailingSeparator = (last path = CHR ''/'');
             p = join_slash (normalizeString (split_slash path) (\<not> isAbsolute) [])
         in if p = [] then (if isAbsolute then ''/'' else if trailingSeparator then ''./'' else ''.'')
            else (let p = (if trailingSeparator then p @ ''/'' else p)
                  in if isAbsolute then ''/'' @ p else p)))"

definition path_join :: "string list \<Rightarrow> string" where
  "path_join args =
     (let joined = join_slash (filter (\<lambda>arg. arg \<noteq> []) args)
      in if joined = [] then ''.'' else path_normalize joined)"

text \<open>Modelled from the spec: \<open>pathExists\<close> of util/misc is not among the sources.
  Section 4.3 probes the folder for a name: a path exists when the file system holds a
  file under it.\<close>

definition pathExists :: "string \<Rightarrow> (string \<rightharpoonup> file_content) \<Rightarrow> bool" where
  "pathExists p fs = (fs p \<noteq> None)"

text \<open>\<open>fs.unlink\<close> and \<open>fs.copyFile\<close>, promisified: both reject with ENOENT when the
  file to remove or to copy does not exist. Other failures of the file system (access
  rights, a full disk) are not modelled.\<close>

definition unlink ::
  "string \<Rightarrow> (string \<rightharpoonup> file_content) \<Rightarrow> js_error + (string \<rightharpoonup> file_content)" where
  "unlink p fs = (case fs p of None \<Rightarrow> Inl ENOENT | Some c \<Rightarrow> Inr (fs(p := None)))"

definition copyFile ::
  "string \<Rightarrow> string \<Rightarrow> (string \<rightharpoonup> file_content) \<Rightarrow> js_error + (string \<rightharpoonup> file_content)" where
  "copyFile src dst fs = (case fs src of None \<Rightarrow> Inl ENOENT | Some c \<Rightarrow> Inr (fs(dst \<mapsto> c)))"

text \<open>Modelled from the spec: \<open>PlaylistFile.saveFile\<close> is not among the sources. Section 6,
  save-playlist: the playlist is written to the file of that path.\<close>

definition saveFile ::
  "string \<Rightarrow> GamePlaylist \<Rightarrow> (string \<rightharpoonup> file_content) \<Rightarrow> (string \<rightharpoonup> file_content)" where
  "saveFile p playlist fs = fs(p \<mapsto> PlaylistJson playlist)"

text \<open>\<open>Array.prototype.slice\<close> with its two bounds on integral arguments: a negative bound
  counts from the end of the array, and both bounds are clamped to the array.\<close>

definition js_slice :: "'a list \<Rightarrow> int \<Rightarrow> int \<Rightarrow> 'a list" where
  "js_slice xs start stop =
     (let len = int (length xs);
          k = (if start < 0 then max (len + start) 0 else min start len);
          final = (if stop < 0 then max (len + stop) 0 else min stop len)
      in take (nat (final - k)) (drop (nat k) xs))"

section \<open>The query fingerprint\<close>

definition hex_digit :: "nat \<Rightarrow> char" where
  "hex_digit n = ''0123456789abcdef'' ! (n mod 16)"

text \<open>\<open>JSON.stringify\<close> of a string quotes it and escapes the quote, the backslash
  and the control characters.\<close>

definition escape_char :: "char \<Rightarrow> string" where
  "escape_char c =
     (if c = CHR 0x08 then [CHR 0x5C, CHR ''b'']
      else if c = CHR 0x09 then [CHR 0x5C, CHR ''t'']
      else if c = CHR 0x0A then [CHR 0x5C, CHR ''n'']
      else if c = CHR 0x0C then [CHR 0x5C, CHR ''f'']
      else if c = CHR 0x0D then [CHR 0x5C, CHR ''r'']
      else if c = CHR 0x22 then [CHR 0x5C, CHR 0x22]
      else if c = CHR 0x5C then [CHR 0x5C, CHR 0x5C]
      else if (of_char c :: nat) < 0x20 then
        [CHR 0x5C, CHR ''u'', CHR ''0'', CHR ''0'',
         hex_digit ((of_char c :: nat) div 16), hex_digit ((of_char c :: nat) mod 16)]
      else [c])"

definition json_string :: "string \<Rightarrow> string" where
  "json_string s = CHR 0x22 # concat (map escape_char s) @ [CHR 0x22]"

definition json_bool :: "bool \<Rightarrow> string" where
  "json_bool b = (if b then ''true'' else ''false'')"

text \<open>A member whose value is \<open>undefined\<close> is left out by \<open>JSON.stringify\<close>.\<close>

definition json_opt_member :: "string \<Rightarrow> string option \<Rightarrow> string" where
  \<open>json_opt_member key v =
     (case v of None \<Rightarrow> [] | Some s \<Rightarrow> '',"'' @ key @ ''":'' @ json_string s)\<close>

text \<open>\<open>JSON.stringify(query)\<close> for the object literal of the three browse handlers:
  the members appear in the order the literal lists them.\<close>

definition JSON_stringify :: "BackQuery \<Rightarrow> string" where
  \<open>JSON_stringify q =
     ''{"extreme":'' @ json_bool (extreme q) @
     '',"broken":'' @ json_bool (broken q) @
     json_opt_member ''library'' (library q) @
     '',"search":'' @ json_string (search q) @
     '',"orderBy":'' @ json_string (orderBy q) @
     '',"orderReverse":'' @ json_string (orderReverse q) @
     json_opt_member ''playlistId'' (playlistId q) @
     ''}''\<close>

text \<open>The object literal \<open>const query: BackQuery = { extreme: req.data.query.extreme, ... }\<close>
  that each of the three handlers builds from the request.\<close>

definition copy_query :: "BackQuery \<Rightarrow> BackQuery" where
  "copy_query q =
     \<lparr>extreme = extreme q, broken = broken q, library = library q, search = search q,
      orderBy = orderBy q, orderReverse = orderReverse q, playlistId = playlistId q\<rparr>"

definition query_hash :: "'db Collaborators \<Rightarrow> BackQuery \<Rightarrow> string" where
  "query_hash ext q = sha256_base64 ext (JSON_stringify q)"


section \<open>The query cache\<close>

record SearchGamesOpts =
  opts_extreme :: bool
  opts_broken :: bool
  opts_playlist :: "GamePlaylist option"
  opts_query :: string
  opts_orderBy :: string
  opts_orderReverse :: string
  opts_library :: "string option"

definition searchGames :: "'db Collaborators \<Rightarrow> 'db BackState \<Rightarrow> SearchGamesOpts \<Rightarrow> Game list" where
  "searchGames ext s opts =
     (let filterOpts = \<lparr>filter_search = opts_query opts, filter_extreme = opts_extreme opts,
                        filter_broken = opts_broken opts, filter_playlist = opts_playlist opts\<rparr>
      in findGames ext filterOpts (db s))"

definition view_of :: "Game \<Rightarrow> ViewGame" where
  "view_of g =
     \<lparr>view_id = game_id g, view_title = title g, view_platform = platform g,
      view_genre = tags g, view_developer = developer g, view_publisher = publisher g\<rparr>"

definition queryGames :: "'db Collaborators \<Rightarrow> 'db BackState \<Rightarrow> BackQuery \<Rightarrow> BackQueryChache" where
  "queryGames ext s q =
     (let playlist = find (\<lambda>p. Some (filename p) = playlistId q) (playlists s);
          results = searchGames ext s
            \<lparr>opts_extreme = extreme q, opts_broken = broken q, opts_playlist = playlist,
             opts_query = search q, opts_orderBy = orderBy q,
             opts_orderReverse = orderReverse q, opts_library = library q\<rparr>
      in \<lparr>query = q, games = results, viewGames = map view_of results\<rparr>)"

text \<open>The three lines shared by the browse-page, browse-index and quick-search handlers:
  \<open>const hash = ...; let cache = state.queries[hash];
  if (!cache) { state.queries[hash] = cache = await queryGames(state, query); }\<close>\<close>

definition lookup_cache ::
  "'db Collaborators \<Rightarrow> BackQuery \<Rightarrow> 'db BackState \<Rightarrow> BackQueryChache \<times> 'db BackState" where
  "lookup_cache ext q s =
     (let hash = query_hash ext q
      in case queries s hash of
           Some cache \<Rightarrow> (cache, s)
         | None \<Rightarrow> (let cache = queryGames ext s q
                    in (cache, s\<lparr>queries := (queries s)(hash \<mapsto> cache)\<rparr>)))"

definition BROWSE_VIEW_PAGE ::
  "'db Collaborators \<Rightarrow> channel \<Rightarrow> string \<Rightarrow> BackQuery \<Rightarrow> int \<Rightarrow> int \<Rightarrow> 'db BackState
   \<Rightarrow> 'db BackState" where
  "BROWSE_VIEW_PAGE ext target req_id data_query data_offset data_limit s =
     (let q = copy_query data_query;
          (cache, s1) = lookup_cache ext q s
      in respond target
           \<lparr>res_id = req_id, res_type = BROWSE_VIEW_PAGE_RESPONSE,
            res_data = BrowseViewPageResponseData
              (js_slice (viewGames cache) data_offset (data_offset + data_limit))
              data_offset (length (games cache))\<rparr> s1)"

function index_loop :: "ViewGame list \<Rightarrow> string \<Rightarrow> nat \<Rightarrow> int" where
  "index_loop vs gameId i =
     (if i < length vs
      then (if view_id (vs ! i) = gameId then int i else index_loop vs gameId (i + 1))
      else - 1)"
  by pat_completeness auto
termination
  by (relation "measure (\<lambda>(vs, gameId, i). length vs - i)") auto

declare index_loop.simps [simp del]

definition BROWSE_VIEW_INDEX ::
  "'db Collaborators \<Rightarrow> channel \<Rightarrow> string \<Rightarrow> BackQuery \<Rightarrow> string \<Rightarrow> 'db BackState
   \<Rightarrow> 'db BackState" where
  "BROWSE_VIEW_INDEX ext target req_id data_query data_gameId s =
     (let q = copy_query data_query;
          (cache, s1) = lookup_cache ext q s;
          index = index_loop (viewGames cache) data_gameId 0
      in respond target
           \<lparr>res_id = req_id, res_type = GENERIC_RESPONSE,
            res_data = BrowseViewIndexResponseData index\<rparr> s1)"

function quick_search_loop :: "Game list \<Rightarrow> string \<Rightarrow> nat \<Rightarrow> string option \<times> nat option" where
  "quick_search_loop gs data_search i =
     (if i < length gs
      then (if startsWith (toLowerCase (title (gs ! i))) data_search
            then (Some (game_id (gs ! i)), Some i)
            else quick_search_loop gs data_search (i + 1))
      else (None, None))"
  by pat_completeness auto
termination
  by (relation "measure (\<lambda>(gs, data_search, i). length gs - i)") auto

declare quick_search_loop.simps [simp del]

definition QUICK_SEARCH ::
  "'db Collaborators \<Rightarrow> channel \<Rightarrow> string \<Rightarrow> BackQuery \<Rightarrow> string \<Rightarrow> 'db BackState
   \<Rightarrow> 'db BackState" where
  "QUICK_SEARCH ext target req_id data_query data_search s =
     (let q = copy_query data_query;
          (cache, s1) = lookup_cache ext q s;
          (result, index) = quick_search_loop (games cache) data_search 0
      in respond target
           \<lparr>res_id = req_id, res_type = GENERIC_RESPONSE,
            res_data = QuickSearchResponseData result index\<rparr> s1)"

section \<open>Handlers that change the catalog\<close>

definition SAVE_GAME ::
  "'db Collaborators \<Rightarrow> channel \<Rightarrow> string \<Rightarrow> Game \<Rightarrow> string option \<Rightarrow> 'db BackState
   \<Rightarrow> 'db BackState" where
  "SAVE_GAME ext target req_id data_game data_library s =
     (let s1 = s\<lparr>db := updateGame ext data_game (db s)\<rparr>;
          s2 = s1\<lparr>queries := Map.empty\<rparr>
      in respond target
           \<lparr>res_id = req_id, res_type = BROWSE_CHANGE,
            res_data = BrowseChangeData data_library (countGames ext (db s2))\<rparr> s2)"

definition DELETE_GAME ::
  "'db Collaborators \<Rightarrow> channel \<Rightarrow> string \<Rightarrow> string \<Rightarrow> 'db BackState \<Rightarrow> 'db BackState" where
  "DELETE_GAME ext target req_id data_id s =
     (let s1 = s\<lparr>db := removeGameAndAddApps ext data_id (db s)\<rparr>;
          s2 = s1\<lparr>queries := Map.empty\<rparr>
      in respond target
           \<lparr>res_id = req_id, res_type = BROWSE_CHANGE,
            res_data = BrowseChangeData None (countGames ext (db s2))\<rparr> s2)"

text \<open>One of the two \<open>try { if (await pathExists(old)) { mkdir; copyFile(old, new) } }
  catch (e) { console.error(e) }\<close> blocks: a failure of the copy is swallowed.\<close>

definition copy_image ::
  "string \<Rightarrow> string \<Rightarrow> (string \<rightharpoonup> file_content) \<Rightarrow> (string \<rightharpoonup> file_content)" where
  "copy_image oldPath newPath fs =
     (if pathExists oldPath fs
      then (case copyFile oldPath newPath fs of Inl e \<Rightarrow> fs | Inr fs' \<Rightarrow> fs')
      else fs)"

definition DUPLICATE_GAME ::
  "'db Collaborators \<Rightarrow> channel \<Rightarrow> string \<Rightarrow> string \<Rightarrow> bool \<Rightarrow> 'db BackState \<Rightarrow> 'db BackState" where
  "DUPLICATE_GAME ext target req_id data_id data_dupeImages s =
     (let s3 =
        (case findGame ext data_id (db s) of
           None \<Rightarrow> s
         | Some game \<Rightarrow>
            (let newId = uuid ext 0;
                 newAddApps = map (\<lambda>(j, addApp). addApp\<lparr>addapp_id := uuid ext (j + 1), parentGame := newId\<rparr>)
                                  (enumerate 0 (addApps game));
                 newGame = game\<lparr>game_id := newId, addApps := newAddApps\<rparr>;
                 s1 = s\<lparr>db := updateGame ext newGame (db s)\<rparr>;
                 s2 = (if data_dupeImages
                       then (let imageFolder = path_join [flashpointPath s1, imageFolderPath s1];
                                 oldLast = path_join [substr (game_id game) 0 2, substr (game_id game) 2 2,
                                                      game_id game @ ''.png''];
                                 newLast = path_join [substr newId 0 2, substr newId 2 2, newId @ ''.png''];
                                 fs1 = copy_image (path_join [imageFolder, LOGOS ext, oldLast])
                                                  (path_join [imageFolder, LOGOS ext, newLast]) (files s1);
                                 fs2 = copy_image (path_join [imageFolder, SCREENSHOTS ext, oldLast])
                                                  (path_join [imageFolder, SCREENSHOTS ext, newLast]) fs1
                             in s1\<lparr>files := fs2\<rparr>)
                       else s1)
             in s2\<lparr>queries := Map.empty\<rparr>))
      in respond target
           \<lparr>res_id = req_id, res_type = BROWSE_CHANGE,
            res_data = BrowseChangeData None (countGames ext (db s3))\<rparr> s3)"

section \<open>Start-up milestones\<close>

text \<open>The \<open>for (let key in state.init)\<close> loop of the listen handler: a finished stage is
  reported, a pending one gets a \<open>once\<close> listener bound to the requesting socket.\<close>

fun init_listen_loop ::
  "(BackInit \<times> bool) list \<Rightarrow> channel \<Rightarrow> BackInit list \<Rightarrow> (BackInit \<times> channel) list
   \<Rightarrow> BackInit list \<times> (BackInit \<times> channel) list" where
  "init_listen_loop [] target done listeners = (done, listeners)"
| "init_listen_loop ((key, finished) # rest) target done listeners =
     (if finished then init_listen_loop rest target (done @ [key]) listeners
      else init_listen_loop rest target done (listeners @ [(key, target)]))"

definition INIT_LISTEN :: "channel \<Rightarrow> string \<Rightarrow> 'db BackState \<Rightarrow> 'db BackState" where
  "INIT_LISTEN target req_id s =
     (let (done, listeners) = init_listen_loop (init s) target [] (initEmitter s)
      in respond target
           \<lparr>res_id = req_id, res_type = INIT_EVENT, res_data = InitEventData done\<rparr>
           (s\<lparr>initEmitter := listeners\<rparr>))"

text \<open>\<open>EventEmitter.emit\<close>: the listeners of the event run in the order they were added;
  a \<open>once\<close> listener is removed when it runs. Each listener here is the closure of the
  listen handler, which sends an event envelope with the empty id.\<close>

definition emit :: "BackInit \<Rightarrow> 'db BackState \<Rightarrow> 'db BackState" where
  "emit name s =
     (let fired = filter (\<lambda>(event, target). event = name) (initEmitter s);
          s1 = s\<lparr>initEmitter := filter (\<lambda>(event, target). event \<noteq> name) (initEmitter s)\<rparr>
      in fold (\<lambda>(event, target).
                 respond target \<lparr>res_id = [], res_type = INIT_EVENT,
                                 res_data = InitEventData [event]\<rparr>) fired s1)"

text \<open>JavaScript property assignment \<open>obj[key] = v\<close> on an object kept as a list of
  members in insertion order.\<close>

fun assign :: "('k \<times> 'a) list \<Rightarrow> 'k \<Rightarrow> 'a \<Rightarrow> ('k \<times> 'a) list" where
  "assign [] key v = [(key, v)]"
| "assign ((k, w) # rest) key v = (if k = key then (k, v) # rest else (k, w) # assign rest key v)"

text \<open>Modelled from the spec: the code that finishes a stage (sets \<open>state.init[name]\<close> and
  emits \<open>name\<close> on \<open>state.initEmitter\<close>) is not in responses.ts. Section 4.5:
  \<open>complete(name)\<close> moves \<open>name\<close> to done if it is still pending, does nothing if it is
  already done, and notifies every subscriber waiting on \<open>name\<close>.\<close>

definition complete :: "BackInit \<Rightarrow> 'db BackState \<Rightarrow> 'db BackState" where
  "complete name s =
     (if map_of (init s) name = Some True then s
      else emit name (s\<lparr>init := assign (init s) name True\<rparr>))"

section \<open>Playlists\<close>

definition deletePlaylist ::
  "string \<Rightarrow> string \<Rightarrow> GamePlaylist list \<Rightarrow> (string \<rightharpoonup> file_content)
   \<Rightarrow> js_error + (string \<rightharpoonup> file_content)" where
  "deletePlaylist pid folder pls fs =
     (if pid \<noteq> [] then
        (case find (\<lambda>p. filename p = pid) pls of
           None \<Rightarrow> Inr fs
         | Some playlist \<Rightarrow>
            (let filepath = path_join [folder, filename playlist]
             in if length filepath > length folder \<and> startsWith filepath folder
                then unlink filepath fs else Inr fs))
      else Inr fs)"

definition DELETE_PLAYLIST ::
  "channel \<Rightarrow> string \<Rightarrow> string \<Rightarrow> 'db BackState \<Rightarrow> 'db BackState promise" where
  "DELETE_PLAYLIST target req_id data s =
     (let deleted =
        (case playlistFolder s of
           None \<Rightarrow> Inr (files s)
         | Some folder \<Rightarrow>
            (if folder \<noteq> [] then deletePlaylist data folder (playlists s) (files s)
             else Inr (files s)))
      in case deleted of
           Inl e \<Rightarrow> Rejected e s
         | Inr fs \<Rightarrow>
            Resolved (respond target
              \<lparr>res_id = req_id, res_type = GENERIC_RESPONSE, res_data = NoData\<rparr>
              (s\<lparr>files := fs\<rparr>)))"

text \<open>\<open>lastIndexOf\<close> of a character: the index of its last occurrence, or -1.\<close>

definition lastIndexOf :: "string \<Rightarrow> char \<Rightarrow> int" where
  "lastIndexOf s c =
     (if c \<in> set s then int (length s) - 1 - int (length (takeWhile (\<lambda>x. x \<noteq> c) (rev s)))
      else - 1)"

definition is_digit :: "char \<Rightarrow> bool" where
  "is_digit c = (0x30 \<le> (of_char c :: nat) \<and> (of_char c :: nat) \<le> 0x39)"

text \<open>The regular expression \<open>/ \d+$/\<close>: a space followed by digits up to the end of the
  string. The result is the string without the match, and the digits of the match.\<close>

definition match_space_digits :: "string \<Rightarrow> (string \<times> string) option" where
  "match_space_digits str =
     (let ds = rev (takeWhile is_digit (rev str));
          pre = take (length str - length ds) str
      in if ds \<noteq> [] \<and> pre \<noteq> [] \<and> last pre = CHR '' '' then Some (butlast pre, ds) else None)"

text \<open>\<open>parseInt\<close> of the match: the space is skipped and the digits are read in base
  ten.\<close>

definition parseInt :: "string \<Rightarrow> nat" where
  "parseInt ds = foldl (\<lambda>acc c. 10 * acc + ((of_char c :: nat) - 0x30)) 0 ds"

text \<open>A number inside a template literal: its decimal digits.\<close>

fun string_of_nat :: "nat \<Rightarrow> string" where
  "string_of_nat n =
     (if n < 10 then [char_of (0x30 + n)]
      else string_of_nat (n div 10) @ [char_of (0x30 + n mod 10)])"

declare string_of_nat.simps [simp del]

text \<open>The template literal \<open>`${parts[0] || ''}${n++}${parts[1] || ''}`\<close>.\<close>

definition candidate :: "string list \<Rightarrow> nat \<Rightarrow> string" where
  "candidate parts n = (parts ! 0) @ string_of_nat n @ (if 1 < length parts then parts ! 1 else [])"

text \<open>The loop \<open>while (n < 100)\<close>: the first candidate that does not exist, if any.\<close>

function find_name ::
  "string \<Rightarrow> (string \<rightharpoonup> file_content) \<Rightarrow> string list \<Rightarrow> nat \<Rightarrow> string option" where
  "find_name folder fs parts n =
     (if n < 100 then
        (let str = candidate parts n
         in if \<not> pathExists (path_join [folder, str]) fs then Some str
            else find_name folder fs parts (n + 1))
      else None)"
  by pat_completeness auto
termination
  by (relation "measure (\<lambda>(folder, fs, parts, n). 100 - n)") auto

declare find_name.simps [simp del]

text \<open>The statements from \<open>const parts: string[] = []\<close> to the line before the loop:
  the value of \<open>parts\<close> and of \<open>n\<close> with which the loop starts.\<close>

definition name_parts :: "string \<Rightarrow> string list \<times> nat" where
  "name_parts fname =
     (let dotIndex = lastIndexOf fname (CHR ''.'');
          parts = (if dotIndex \<ge> 0
                   then [take (nat dotIndex) fname, drop (nat dotIndex) fname]
                   else [fname]);
          m = match_space_digits (parts ! (length parts - 1));
          n = (case m of None \<Rightarrow> 2 | Some (rest, ds) \<Rightarrow> parseInt ds + 1);
          parts = (case m of None \<Rightarrow> parts
                   | Some (rest, ds) \<Rightarrow> parts[length parts - 1 := rest]);
          parts = (if 1 < length parts \<and> 0 < length (parts ! 0) \<and> \<not> endsWith (parts ! 0) '' ''
                   then parts[0 := (parts ! 0) @ '' ''] else parts)
      in (parts, n))"

text \<open>The block under \<open>let coolFilename = filename\<close> up to \<open>// Abort save\<close>: the
  name to save under, or the empty string.\<close>

definition coolFilename :: "string \<Rightarrow> string \<Rightarrow> (string \<rightharpoonup> file_content) \<Rightarrow> string" where
  "coolFilename folder fname fs =
     (if pathExists (path_join [folder, fname]) fs then
        (let (parts, n) = name_parts fname
         in case find_name folder fs parts n of None \<Rightarrow> [] | Some str \<Rightarrow> str)
      else fname)"

definition SAVE_PLAYLIST ::
  "'db Collaborators \<Rightarrow> channel \<Rightarrow> string \<Rightarrow> GamePlaylist \<Rightarrow> string option \<Rightarrow> 'db BackState
   \<Rightarrow> 'db BackState promise" where
  "SAVE_PLAYLIST ext target req_id data_playlist data_prevFilename s =
     (let folder = playlistFolder s;
          fname = sanitizeFilename ext
            (if filename data_playlist \<noteq> [] then filename data_playlist
             else playlist_title data_playlist @ ''.json'');
          saved =
            (case folder of
               None \<Rightarrow> Resolved s
             | Some dir \<Rightarrow>
                (if dir \<noteq> [] \<and> fname \<noteq> [] then
                   (if data_prevFilename = Some fname
                    then Resolved (s\<lparr>files := saveFile (path_join [dir, fname]) data_playlist (files s)\<rparr>)
                    else
                      (let cool = coolFilename dir fname (files s)
                       in if cool \<noteq> [] then
                            (let s1 = s\<lparr>files := saveFile (path_join [dir, cool]) data_playlist (files s)\<rparr>
                             in case data_prevFilename of
                                  None \<Rightarrow> Resolved s1
                                | Some prev \<Rightarrow>
                                   (if prev \<noteq> [] then
                                      (case deletePlaylist prev dir (playlists s1) (files s1) of
                                         Inl e \<Rightarrow> Rejected e s1
                                       | Inr fs \<Rightarrow> Resolved (s1\<lparr>files := fs\<rparr>))
                                    else Resolved s1))
                          else Resolved s))
                 else Resolved s))
      in case saved of
           Rejected e s' \<Rightarrow> Rejected e s'
         | Resolved s' \<Rightarrow>
            Resolved (respond target
              \<lparr>res_id = req_id, res_type = GENERIC_RESPONSE, res_data = NoData\<rparr> s'))"

section \<open>The settings diff\<close>

text \<open>
  JavaScript values. An object carries its identity (the first argument of \<open>Obj\<close>) and
  its members in insertion order; \<open>===\<close> on two objects compares the identities.
  Numbers are the integers and \<open>NaN\<close>.
\<close>

datatype jsval =
  Undefined | Null | Bool bool | Num int | NaN | Str string
  | Obj nat "(string \<times> jsval) list"

text \<open>The returned \<open>DeepPartial\<close>: its objects are created by \<open>difObjects\<close> itself
  (\<open>dif = {}\<close>), its leaves are values of \<open>b\<close>.\<close>

datatype patch = Leaf jsval | Sub "(string \<times> patch) list"

fun strict_eq :: "jsval \<Rightarrow> jsval \<Rightarrow> bool" where
  "strict_eq Undefined Undefined = True"
| "strict_eq Null Null = True"
| "strict_eq (Bool x) (Bool y) = (x = y)"
| "strict_eq (Num x) (Num y) = (x = y)"
| "strict_eq (Str x) (Str y) = (x = y)"
| "strict_eq (Obj i xs) (Obj j ys) = (i = j)"
| "strict_eq a b = False"

text \<open>\<open>typeof v === 'object'\<close>\<close>

fun typeof_object :: "jsval \<Rightarrow> bool" where
  "typeof_object Null = True"
| "typeof_object (Obj i xs) = True"
| "typeof_object v = False"

text \<open>\<open>v[key]\<close> for a key that is the name of a settings field: reading a property of
  \<open>null\<close> or \<open>undefined\<close> throws, a missing property is \<open>undefined\<close>.\<close>

fun get_prop :: "jsval \<Rightarrow> string \<Rightarrow> js_error + jsval" where
  "get_prop Undefined key = Inl TypeError"
| "get_prop Null key = Inl TypeError"
| "get_prop (Obj i xs) key = Inr (case map_of xs key of None \<Rightarrow> Undefined | Some v \<Rightarrow> v)"
| "get_prop v key = Inr Undefined"

text \<open>The body of \<open>difObjects\<close>, as the loop \<open>for (let key in template)\<close> over the
  members of the template that are still to be visited; \<open>dif\<close> is the result so far.\<close>

fun dif_loop ::
  "(string \<times> jsval) list \<Rightarrow> jsval \<Rightarrow> jsval \<Rightarrow> (string \<times> patch) list option
   \<Rightarrow> js_error + (string \<times> patch) list option" where
  "dif_loop [] a b dif = Inr dif"
| "dif_loop ((key, tv) # rest) a b dif =
     (case get_prop a key of
        Inl e \<Rightarrow> Inl e
      | Inr av \<Rightarrow>
         (case get_prop b key of
            Inl e \<Rightarrow> Inl e
          | Inr bv \<Rightarrow>
             (if \<not> strict_eq av bv \<and> bv \<noteq> Undefined then
                (if typeof_object tv \<and> typeof_object av \<and> typeof_object bv then
                   (case (case tv of Obj i members \<Rightarrow> dif_loop members av bv None
                                   | _ \<Rightarrow> Inr None) of
                      Inl e \<Rightarrow> Inl e
                    | Inr None \<Rightarrow> dif_loop rest a b dif
                    | Inr (Some subDif) \<Rightarrow>
                       dif_loop rest a b
                         (Some (assign (case dif of None \<Rightarrow> [] | Some d \<Rightarrow> d) key (Sub subDif))))
                 else dif_loop rest a b
                        (Some (assign (case dif of None \<Rightarrow> [] | Some d \<Rightarrow> d) key (Leaf bv))))
              else dif_loop rest a b dif)))"

definition difObjects :: "jsval \<Rightarrow> jsval \<Rightarrow> jsval \<Rightarrow> js_error + (string \<times> patch) list option" where
  "difObjects template a b =
     (case template of Obj i members \<Rightarrow> dif_loop members a b None | _ \<Rightarrow> Inr None)"

section \<open>The window of a page, in the words of the specification\<close>

text \<open>\<open>viewProjection[offset : offset+limit)\<close> clipped to the bounds of the projection:
  the elements whose index lies in the window, in order.\<close>

definition clipped_window :: "'a list \<Rightarrow> int \<Rightarrow> int \<Rightarrow> 'a list" where
  "clipped_window xs offset limit =
     map (\<lambda>i. xs ! i) (filter (\<lambda>i. offset \<le> int i \<and> int i < offset + limit) [0..<length xs])"

section \<open>Shapes of settings values\<close>

text \<open>A value matches the shape of a template when it is an object wherever the
  template is one, with a member matching each member of the template, and a value that
  is not an object wherever the template has a leaf.\<close>

fun is_leaf :: "jsval \<Rightarrow> bool" where
  "is_leaf (Obj i xs) = False"
| "is_leaf v = True"

fun field_of :: "jsval \<Rightarrow> string \<Rightarrow> jsval" where
  "field_of (Obj i xs) key = (case map_of xs key of None \<Rightarrow> Undefined | Some v \<Rightarrow> v)"
| "field_of v key = Undefined"

fun matches :: "jsval \<Rightarrow> jsval \<Rightarrow> bool" where
  "matches (Obj i members) v =
     ((case v of Obj j xs \<Rightarrow> True | _ \<Rightarrow> False) \<and>
      list_all (\<lambda>(key, tv). matches tv (field_of v key)) members)"
| "matches tv v = is_leaf v"

text \<open>No \<open>NaN\<close> at any position of the value that the template covers.\<close>

fun nan_free :: "jsval \<Rightarrow> jsval \<Rightarrow> bool" where
  "nan_free (Obj i members) v = list_all (\<lambda>(key, tv). nan_free tv (field_of v key)) members"
| "nan_free tv v = (v \<noteq> NaN)"

text \<open>Two values are the same on a template when they hold equal leaves at every
  position the template covers; the identities of their objects may differ.\<close>

fun same_on :: "jsval \<Rightarrow> jsval \<Rightarrow> jsval \<Rightarrow> bool" where
  "same_on (Obj i members) a b =
     list_all (\<lambda>(key, tv). same_on tv (field_of a key) (field_of b key)) members"
| "same_on tv a b = (a = b)"

declare matches.simps [simp del] nan_free.simps [simp del] same_on.simps [simp del]

text \<open>A value that is an object (and not \<open>null\<close>).\<close>

fun is_obj :: "jsval \<Rightarrow> bool" where
  "is_obj (Obj i xs) = True"
| "is_obj v = False"

text \<open>Every member of a patch has a value in \<open>b\<close> that is defined and not \<open>===\<close> to
  the one in \<open>a\<close>; a leaf of the patch is that value of \<open>b\<close>, and a nested patch is not
  empty and is again of this kind.\<close>

fun changed_only :: "jsval \<Rightarrow> jsval \<Rightarrow> (string \<times> patch) list \<Rightarrow> bool" where
  "changed_only a b [] = True"
| "changed_only a b ((key, Leaf v) # rest) =
     (field_of b key \<noteq> Undefined \<and> \<not> strict_eq (field_of a key) (field_of b key) \<and>
      v = field_of b key \<and> changed_only a b rest)"
| "changed_only a b ((key, Sub sub) # rest) =
     (field_of b key \<noteq> Undefined \<and> \<not> strict_eq (field_of a key) (field_of b key) \<and>
      sub \<noteq> [] \<and> changed_only (field_of a key) (field_of b key) sub \<and>
      changed_only a b rest)"

text \<open>The two values differ only in the leaf \<open>leaf\<close> of the nested object \<open>nested\<close>:
  the template has an object under \<open>nested\<close> with a leaf under \<open>leaf\<close>, \<open>a\<close> and \<open>b\<close>
  hold two distinct objects under \<open>nested\<close> with different values under \<open>leaf\<close>, the
  one of \<open>b\<close> being defined, and they are the same on every other member of the template
  and of its nested object.\<close>

definition differs_only_at :: "jsval \<Rightarrow> string \<Rightarrow> string \<Rightarrow> jsval \<Rightarrow> jsval \<Rightarrow> bool" where
  "differs_only_at template nested leaf a b =
     (case template of
        Obj i tms \<Rightarrow>
          (case map_of tms nested of
             Some (Obj j nms) \<Rightarrow>
               (case map_of nms leaf of
                  Some tleaf \<Rightarrow>
                    \<not> is_obj tleaf \<and> distinct (map fst tms) \<and> distinct (map fst nms) \<and>
                    list_all (\<lambda>(key, tv). key = nested \<or>
                                same_on tv (field_of a key) (field_of b key)) tms \<and>
                    list_all (\<lambda>(key, tv). key = leaf \<or>
                                same_on tv (field_of (field_of a nested) key)
                                           (field_of (field_of b nested) key)) nms \<and>
                    field_of (field_of a nested) leaf \<noteq> field_of (field_of b nested) leaf \<and>
                    field_of (field_of b nested) leaf \<noteq> Undefined \<and>
                    \<not> strict_eq (field_of a nested) (field_of b nested)
                | None \<Rightarrow> False)
           | _ \<Rightarrow> False)
      | _ \<Rightarrow> False)"

text \<open>The envelope a \<open>once\<close> listener of the listen handler sends when its stage is
  finished.\<close>

definition init_event :: "BackInit \<Rightarrow> WrappedResponse" where
  "init_event name = \<lparr>res_id = [], res_type = INIT_EVENT, res_data = InitEventData [name]\<rparr>"

section \<open>Concrete requests\<close>

text \<open>A catalog store kept as a list of games, on which the handlers can be run. Its
  \<open>findGames\<close> returns every game; the identity stands for the digest and for
  \<open>sanitizeFilename\<close>.\<close>

definition list_store :: "Game list Collaborators" where
  "list_store =
     \<lparr>findGame = (\<lambda>gid gs. find (\<lambda>g. game_id g = gid) gs),
      findGames = (\<lambda>opts gs. gs),
      updateGame = (\<lambda>g gs. filter (\<lambda>x. game_id x \<noteq> game_id g) gs @ [g]),
      removeGameAndAddApps = (\<lambda>gid gs. filter (\<lambda>g. game_id g \<noteq> gid) gs),
      countGames = length,
      uuid = (\<lambda>k. ''id-'' @ string_of_nat k),
      LOGOS = ''Logos'',
      SCREENSHOTS = ''Screenshots'',
      sha256_base64 = (\<lambda>text. text),
      sanitizeFilename = (\<lambda>name. name)\<rparr>"

definition game_of :: "string \<Rightarrow> string \<Rightarrow> Game" where
  "game_of gid name =
     \<lparr>game_id = gid, title = name, platform = ''Flash'', tags = [], developer = [],
      publisher = [], addApps = []\<rparr>"

definition query0 :: BackQuery where
  "query0 = \<lparr>extreme = False, broken = False, library = Some ''arcade'', search = ''mario'',
             orderBy = ''title'', orderReverse = ''ascending'', playlistId = None\<rparr>"


definition three_games :: "Game list" where
  "three_games = [game_of ''g1'' ''Mario'', game_of ''g2'' ''Mario Kart'', game_of ''g3'' ''Zelda'']"

text \<open>A state whose cache holds the result of \<open>query0\<close> over a catalog of three games.\<close>

definition browse_state :: "Game list BackState" where
  "browse_state =
     \<lparr>queries = [query_hash list_store query0 \<mapsto>
                  \<lparr>query = query0, games = three_games, viewGames = map view_of three_games\<rparr>],
      db = three_games, playlists = [], playlistFolder = Some ''playlists'',
      flashpointPath = ''fp'', imageFolderPath = ''Images'', files = Map.empty,
      init = [(0, True), (1, False)], initEmitter = [], sent = []\<rparr>"

text \<open>A state whose playlist list still names \<open>gone.json\<close> while the file is no longer
  in the playlist folder.\<close>

definition stale_state :: "Game list BackState" where
  "stale_state =
     browse_state\<lparr>playlists := [\<lparr>filename = ''gone.json'', playlist_title = ''Gone'',
                                  playlist_games = []\<rparr>]\<rparr>"

definition foo_playlist :: "string \<Rightarrow> GamePlaylist" where
  "foo_playlist name = \<lparr>filename = name, playlist_title = ''Foo'', playlist_games = []\<rparr>"

text \<open>A state whose playlist list names \<open>../x.json\<close>, a file above the playlist folder.\<close>

definition climbing_state :: "Game list BackState" where
  "climbing_state =
     browse_state\<lparr>playlists := [foo_playlist ''../x.json''],
                   files := [''x.json'' \<mapsto> Blob []]\<rparr>"

text \<open>Playlist folders: one holding \<open>Foo 2.json\<close> only, one holding \<open>Foo.json\<close> and
  \<open>Foo 2.json\<close>, and one holding \<open>Foo.json\<close> and \<open>Foo 2.json\<close> up to \<open>Foo 99.json\<close>.\<close>

definition foo2_state :: "Game list BackState" where
  "foo2_state = browse_state\<lparr>files := [''playlists/Foo 2.json'' \<mapsto> PlaylistJson (foo_playlist ''Foo 2.json'')]\<rparr>"

definition foo_state :: "Game list BackState" where
  "foo_state = browse_state\<lparr>files :=
     [''playlists/Foo.json'' \<mapsto> PlaylistJson (foo_playlist ''Foo.json''),
      ''playlists/Foo 2.json'' \<mapsto> PlaylistJson (foo_playlist ''Foo 2.json'')]\<rparr>"

definition full_folder :: "string \<rightharpoonup> file_content" where
  "full_folder p =
     (if p = ''playlists/Foo.json'' \<or>
         p \<in> (\<lambda>k. ''playlists/Foo '' @ string_of_nat k @ ''.json'') ` {2..<100}
      then Some (Blob []) else None)"

definition full_state :: "Game list BackState" where
  "full_state = browse_state\<lparr>files := full_folder\<rparr>"

text \<open>A settings template with a nested object, and two values of its shape.\<close>

definition template0 :: jsval where
  "template0 = Obj 0 [(''scale'', Num 1), (''nested'', Obj 1 [(''leaf'', Num 0), (''flag'', Bool False)])]"

definition settings_a :: jsval where
  "settings_a = Obj 2 [(''scale'', Num 5), (''nested'', Obj 3 [(''leaf'', Num 7), (''flag'', Bool True)])]"

definition settings_b :: jsval where
  "settings_b = Obj 4 [(''scale'', Num 5), (''nested'', Obj 5 [(''leaf'', Num 8), (''flag'', Bool True)])]"

definition settings_nan :: jsval where
  "settings_nan = Obj 6 [(''scale'', NaN), (''nested'', Obj 7 [(''leaf'', Num 7), (''flag'', Bool True)])]"

section \<open>The query fingerprint is injective up to the digest\<close>





















section \<open>Catalog mutations and the cache\<close>

lemma queries_respond [simp]: "queries (respond target res s) = queries s"
  by (simp add: respond_def)

lemma db_respond [simp]: "db (respond target res s) = db s"
  by (simp add: respond_def)

lemma files_respond [simp]: "files (respond target res s) = files s"
  by (simp add: respond_def)

lemma sent_respond [simp]: "sent (respond target res s) = sent s @ [(target, res)]"
  by (simp add: respond_def)

lemma SAVE_GAME_clears: "queries (SAVE_GAME ext target req_id g lib s) = Map.empty"
  by (simp add: SAVE_GAME_def Let_def)

lemma DELETE_GAME_clears: "queries (DELETE_GAME ext target req_id gid s) = Map.empty"
  by (simp add: DELETE_GAME_def Let_def)

lemma DUPLICATE_GAME_clears:
  "findGame ext gid (db s) = Some g \<Longrightarrow>
   queries (DUPLICATE_GAME ext target req_id gid dupe s) = Map.empty"
  by (simp add: DUPLICATE_GAME_def Let_def)

lemma lookup_cache_miss:
  "queries s (query_hash ext q) = None \<Longrightarrow>
   lookup_cache ext q s =
     (queryGames ext s q, s\<lparr>queries := (queries s)(query_hash ext q \<mapsto> queryGames ext s q)\<rparr>)"
  by (simp add: lookup_cache_def Let_def)

lemma lookup_cache_hit:
  "queries s (query_hash ext q) = Some c \<Longrightarrow> lookup_cache ext q s = (c, s)"
  by (simp add: lookup_cache_def Let_def)

text \<open>
  C2, as stated, fails: a duplicate-entry request whose id matches no catalog entry
  completes and leaves the cached entry of \<open>query0\<close> in place, so the next lookup of
  \<open>query0\<close> is served from it.
\<close>

theorem duplicate_missing_keeps_cache:
  "queries (DUPLICATE_GAME list_store 1 ''r1'' ''missing'' False browse_state)
     (query_hash list_store query0)
   = Some \<lparr>query = query0, games = three_games, viewGames = map view_of three_games\<rparr>"
  by (simp add: DUPLICATE_GAME_def Let_def browse_state_def list_store_def three_games_def
      game_of_def)

text \<open>
  C2, amended. After save-entry, after delete-entry, and after a duplicate-entry whose id
  matches a catalog entry, the cache is empty; the next lookup of any query then calls
  \<open>queryGames\<close> on the state the mutation left and stores that result.
\<close>

theorem mutation_clears_cache:
  assumes "s' = SAVE_GAME ext target req_id g lib s \<or>
           s' = DELETE_GAME ext target req_id gid s \<or>
           (s' = DUPLICATE_GAME ext target req_id gid dupe s \<and> findGame ext gid (db s) \<noteq> None)"
  shows "queries s' = Map.empty \<and>
         lookup_cache ext q s' =
           (queryGames ext s' q, s'\<lparr>queries := [query_hash ext q \<mapsto> queryGames ext s' q]\<rparr>)"
proof -
  have e: "queries s' = Map.empty"
    using assms
  proof (elim disjE conjE)
    assume "s' = SAVE_GAME ext target req_id g lib s"
    then show ?thesis by (simp only: SAVE_GAME_clears)
  next
    assume "s' = DELETE_GAME ext target req_id gid s"
    then show ?thesis by (simp only: DELETE_GAME_clears)
  next
    assume d: "s' = DUPLICATE_GAME ext target req_id gid dupe s"
      and "findGame ext gid (db s) \<noteq> None"
    then obtain game where "findGame ext gid (db s) = Some game" by blast
    from DUPLICATE_GAME_clears[OF this] d show ?thesis by (simp only:)
  qed
  then have "queries s' (query_hash ext q) = None" by (simp only: empty_iff dom_empty domIff[symmetric])
  from lookup_cache_miss[OF this] e show ?thesis by (simp only:)
qed

theorem mutation_clears_cache_witness:
  "findGame list_store ''g1'' (db browse_state) \<noteq> None \<and>
   queries browse_state (query_hash list_store query0) \<noteq> None \<and>
   queries (DUPLICATE_GAME list_store 1 ''r1'' ''g1'' False browse_state) = Map.empty \<and>
   queries (SAVE_GAME list_store 1 ''r1'' (game_of ''g1'' ''Mario 2'') None browse_state) = Map.empty \<and>
   queries (DELETE_GAME list_store 1 ''r1'' ''g1'' browse_state) = Map.empty"
proof -
  have f: "findGame list_store ''g1'' (db browse_state) \<noteq> None"
    by (simp add: list_store_def browse_state_def three_games_def game_of_def)
  have c: "queries browse_state (query_hash list_store query0) \<noteq> None"
    by (simp add: browse_state_def)
  from f c
    mutation_clears_cache[of "DUPLICATE_GAME list_store 1 ''r1'' ''g1'' False browse_state"
      list_store 1 "''r1''" "game_of ''g1'' ''Mario 2''" None browse_state "''g1''" False query0]
    mutation_clears_cache[of "SAVE_GAME list_store 1 ''r1'' (game_of ''g1'' ''Mario 2'') None browse_state"
      list_store 1 "''r1''" "game_of ''g1'' ''Mario 2''" None browse_state "''g1''" False query0]
    mutation_clears_cache[of "DELETE_GAME list_store 1 ''r1'' ''g1'' browse_state"
      list_store 1 "''r1''" "game_of ''g1'' ''Mario 2''" None browse_state "''g1''" False query0]
  show ?thesis by simp
qed

section \<open>Duplicating an entry that does not exist\<close>

text \<open>
  C10. A duplicate-entry request whose id matches no catalog entry changes nothing but
  the outgoing messages: the catalog, the files and the query cache are as before, and
  one BROWSE_CHANGE envelope with the request's id and the current catalog total is sent
  to the requester, the same envelope a successful duplication sends.
\<close>

theorem duplicate_missing_is_silent:
  assumes "findGame ext gid (db s) = None"
  shows "DUPLICATE_GAME ext target req_id gid dupe s =
           s\<lparr>sent := sent s @ [(target, \<lparr>res_id = req_id, res_type = BROWSE_CHANGE,
                res_data = BrowseChangeData None (countGames ext (db s))\<rparr>)]\<rparr> \<and>
         db (DUPLICATE_GAME ext target req_id gid dupe s) = db s \<and>
         files (DUPLICATE_GAME ext target req_id gid dupe s) = files s \<and>
         queries (DUPLICATE_GAME ext target req_id gid dupe s) = queries s"
  using assms by (simp add: DUPLICATE_GAME_def respond_def)

theorem duplicate_missing_is_silent_witness:
  "findGame list_store ''missing'' (db browse_state) = None \<and>
   sent (DUPLICATE_GAME list_store 1 ''r1'' ''missing'' True browse_state) =
     [(1, \<lparr>res_id = ''r1'', res_type = BROWSE_CHANGE, res_data = BrowseChangeData None 3\<rparr>)] \<and>
   db (DUPLICATE_GAME list_store 1 ''r1'' ''missing'' True browse_state) = three_games \<and>
   files (DUPLICATE_GAME list_store 1 ''r1'' ''missing'' True browse_state) = Map.empty"
proof -
  have f: "findGame list_store ''missing'' (db browse_state) = None"
    by (simp add: list_store_def browse_state_def three_games_def game_of_def)
  have "countGames list_store (db browse_state) = 3" "sent browse_state = []"
    "db browse_state = three_games" "files browse_state = Map.empty"
    by (simp_all add: list_store_def browse_state_def three_games_def)
  with f duplicate_missing_is_silent[OF f, of 1 "''r1''" True] show ?thesis by simp
qed

section \<open>Pages and quick search\<close>

lemma filter_upt_window:
  "filter (\<lambda>i. a \<le> i \<and> i < e) [0..<n] = [a..<min n e]"
proof (induction n)
  case 0
  then show ?case by simp
next
  case (Suc n)
  show ?case
  proof (cases "a \<le> n \<and> n < e")
    case True
    then have "min (Suc n) e = Suc n" "min n e = n" by simp_all
    with Suc True show ?thesis by simp
  next
    case False
    then have "n < a \<or> e \<le> n" by auto
    then have "[a..<min (Suc n) e] = [a..<min n e]"
    proof
      assume "n < a"
      then show ?thesis by simp
    next
      assume "e \<le> n"
      then show ?thesis by (simp add: min_def)
    qed
    with Suc False show ?thesis by simp
  qed
qed

lemma clipped_window_upt:
  "clipped_window xs offset limit
   = map (\<lambda>i. xs ! i) [nat offset..<min (length xs) (nat (offset + limit))]"
proof -
  have "(\<lambda>i. offset \<le> int i \<and> int i < offset + limit)
        = (\<lambda>i. nat offset \<le> i \<and> i < nat (offset + limit))"
    by (simp add: nat_le_iff zless_nat_eq_int_zless)
  then show ?thesis by (simp add: clipped_window_def filter_upt_window)
qed

lemma take_drop_upt:
  "take m (drop a xs) = map (\<lambda>i. xs ! i) [a..<min (a + m) (length xs)]"
proof -
  have "take m (drop a xs) = take m (drop a (map (\<lambda>i. xs ! i) [0..<length xs]))"
    by (simp add: map_nth)
  also have "\<dots> = map (\<lambda>i. xs ! i) (take m [a..<length xs])"
    by (simp add: take_map drop_map)
  also have "take m [a..<length xs] = [a..<min (a + m) (length xs)]"
  proof (cases "a + m \<le> length xs")
    case True
    then show ?thesis by (simp add: min_def)
  next
    case False
    then show ?thesis by (simp add: min_def)
  qed
  finally show ?thesis .
qed

lemma nat_min_int: "nat (min x (int n)) = min (nat x) n"
  by (cases "x \<le> int n") (simp_all add: min_def nat_le_iff)

lemma nat_window_limit:
  assumes "0 \<le> offset" "0 \<le> offset + limit"
  shows "nat limit = nat (offset + limit) - nat offset"
  using assms by linarith

lemma clipped_window_take_drop:
  assumes "0 \<le> offset" "0 \<le> offset + limit"
  shows "clipped_window xs offset limit = take (nat limit) (drop (nat offset) xs)"
proof -
  define a e n where "a = nat offset" and "e = nat (offset + limit)" and "n = length xs"
  have "[a..<min n e] = [a..<min (a + (e - a)) n]"
  proof (cases "a \<le> e")
    case True
    then show ?thesis by (simp add: min.commute)
  next
    case False
    then show ?thesis by simp
  qed
  then show ?thesis
    unfolding clipped_window_upt take_drop_upt nat_window_limit[OF assms]
    by (simp only: a_def e_def n_def)
qed

lemma js_slice_window:
  assumes "0 \<le> offset" "0 \<le> offset + limit"
  shows "js_slice xs offset (offset + limit) = clipped_window xs offset limit"
proof -
  define a e n where "a = nat offset" and "e = nat (offset + limit)" and "n = length xs"
  have k: "nat (min offset (int (length xs))) = min a n"
    by (simp only: nat_min_int a_def n_def)
  have f: "nat (min (offset + limit) (int (length xs)) - min offset (int (length xs)))
           = min e n - min a n"
  proof -
    have "0 \<le> min offset (int (length xs))"
      "min offset (int (length xs)) \<le> min (offset + limit) (int (length xs))
       \<or> min (offset + limit) (int (length xs)) \<le> min offset (int (length xs))"
      using assms by auto
    then have "nat (min (offset + limit) (int (length xs)) - min offset (int (length xs)))
      = nat (min (offset + limit) (int (length xs))) - nat (min offset (int (length xs)))"
      by (simp add: nat_diff_distrib')
    then show ?thesis by (simp only: nat_min_int a_def e_def n_def)
  qed
  have "js_slice xs offset (offset + limit) = take (min e n - min a n) (drop (min a n) xs)"
    using assms by (simp add: js_slice_def Let_def k f)
  also have "\<dots> = map (\<lambda>i. xs ! i) [min a n..<min (min a n + (min e n - min a n)) n]"
    by (simp only: take_drop_upt n_def)
  also have "[min a n..<min (min a n + (min e n - min a n)) n] = [a..<min n e]"
  proof (cases "a \<le> n")
    case an: True
    show ?thesis
    proof (cases "a \<le> e")
      case True
      with an show ?thesis by (simp add: min.commute)
    next
      case False
      with an show ?thesis by simp
    qed
  next
    case False
    then show ?thesis by simp
  qed
  finally show ?thesis by (simp only: clipped_window_upt a_def e_def n_def)
qed

lemma set_clipped_window:
  "set (clipped_window xs offset limit)
   = {xs ! i | i. i < length xs \<and> offset \<le> int i \<and> int i < offset + limit}"
  by (auto simp: clipped_window_def)

text \<open>
  C4, as stated, fails for a negative offset: \<open>slice\<close> counts a negative bound from
  the end of the array. With three cached results, offset -2 and limit 1, the window
  [-2, -1) holds no index of the projection, but the response carries the second entry.
\<close>

theorem page_negative_offset:
  "sent (BROWSE_VIEW_PAGE list_store 1 ''r1'' query0 (- 2) 1 browse_state) =
     [(1, \<lparr>res_id = ''r1'', res_type = BROWSE_VIEW_PAGE_RESPONSE,
           res_data = BrowseViewPageResponseData [view_of (game_of ''g2'' ''Mario Kart'')] (- 2) 3\<rparr>)] \<and>
   clipped_window (viewGames \<lparr>query = query0, games = three_games,
                              viewGames = map view_of three_games\<rparr>) (- 2) 1 = []"
  by code_simp

text \<open>
  C4, amended. For a cached query, an offset that is not negative and a limit with
  \<open>offset + limit\<close> not negative (in particular every limit that is not negative), the
  page response carries exactly the entries of the projection whose index lies in
  [offset, offset + limit), in order, every one of them an entry of the projection at
  an index within its bounds, together with the offset and the length of the full
  result list.
\<close>

theorem page_is_clipped_window:
  assumes "queries s (query_hash ext (copy_query q)) = Some cache"
    and "0 \<le> offset" and "0 \<le> offset + limit"
  shows "BROWSE_VIEW_PAGE ext target req_id q offset limit s =
           s\<lparr>sent := sent s @ [(target, \<lparr>res_id = req_id, res_type = BROWSE_VIEW_PAGE_RESPONSE,
                res_data = BrowseViewPageResponseData (clipped_window (viewGames cache) offset limit)
                             offset (length (games cache))\<rparr>)]\<rparr> \<and>
         clipped_window (viewGames cache) offset limit
           = take (nat limit) (drop (nat offset) (viewGames cache)) \<and>
         set (clipped_window (viewGames cache) offset limit)
           = {viewGames cache ! i | i. i < length (viewGames cache) \<and> offset \<le> int i \<and> int i < offset + limit}"
proof -
  have "lookup_cache ext (copy_query q) s = (cache, s)"
    using assms(1) by (rule lookup_cache_hit)
  then have "BROWSE_VIEW_PAGE ext target req_id q offset limit s =
      respond target \<lparr>res_id = req_id, res_type = BROWSE_VIEW_PAGE_RESPONSE,
        res_data = BrowseViewPageResponseData (js_slice (viewGames cache) offset (offset + limit))
                     offset (length (games cache))\<rparr> s"
    by (simp add: BROWSE_VIEW_PAGE_def)
  then have page: "BROWSE_VIEW_PAGE ext target req_id q offset limit s =
      s\<lparr>sent := sent s @ [(target, \<lparr>res_id = req_id, res_type = BROWSE_VIEW_PAGE_RESPONSE,
        res_data = BrowseViewPageResponseData (clipped_window (viewGames cache) offset limit)
                     offset (length (games cache))\<rparr>)]\<rparr>"
    by (simp only: js_slice_window[OF assms(2,3)] respond_def)
  show ?thesis
  proof (intro conjI)
    show "BROWSE_VIEW_PAGE ext target req_id q offset limit s =
      s\<lparr>sent := sent s @ [(target, \<lparr>res_id = req_id, res_type = BROWSE_VIEW_PAGE_RESPONSE,
        res_data = BrowseViewPageResponseData (clipped_window (viewGames cache) offset limit)
                     offset (length (games cache))\<rparr>)]\<rparr>"
      by (fact page)
    show "clipped_window (viewGames cache) offset limit
           = take (nat limit) (drop (nat offset) (viewGames cache))"
      by (rule clipped_window_take_drop[OF assms(2,3)])
    show "set (clipped_window (viewGames cache) offset limit)
           = {viewGames cache ! i | i. i < length (viewGames cache) \<and> offset \<le> int i \<and> int i < offset + limit}"
      by (rule set_clipped_window)
  qed
qed

theorem page_is_clipped_window_witness:
  "queries browse_state (query_hash list_store (copy_query query0)) \<noteq> None \<and>
   sent (BROWSE_VIEW_PAGE list_store 1 ''r1'' query0 1 5 browse_state) =
     [(1, \<lparr>res_id = ''r1'', res_type = BROWSE_VIEW_PAGE_RESPONSE,
           res_data = BrowseViewPageResponseData
             (map view_of [game_of ''g2'' ''Mario Kart'', game_of ''g3'' ''Zelda'']) 1 3\<rparr>)]"
proof -
  let ?c = "\<lparr>query = query0, games = three_games, viewGames = map view_of three_games\<rparr>"
  have h: "queries browse_state (query_hash list_store (copy_query query0)) = Some ?c"
    by code_simp
  have w: "clipped_window (viewGames ?c) 1 5
           = map view_of [game_of ''g2'' ''Mario Kart'', game_of ''g3'' ''Zelda'']"
    by code_simp
  have e: "sent browse_state = []"
    by code_simp
  have l: "length (games ?c) = 3"
    by code_simp
  note page = page_is_clipped_window[OF h, of 1 5 1 "''r1''", THEN conjunct1]
  have "sent (BROWSE_VIEW_PAGE list_store 1 ''r1'' query0 1 5 browse_state) =
        sent browse_state @ [(1, \<lparr>res_id = ''r1'', res_type = BROWSE_VIEW_PAGE_RESPONSE,
           res_data = BrowseViewPageResponseData (clipped_window (viewGames ?c) 1 5) 1
                        (length (games ?c))\<rparr>)]"
    by (subst page) simp_all
  then have "sent (BROWSE_VIEW_PAGE list_store 1 ''r1'' query0 1 5 browse_state) =
     [(1, \<lparr>res_id = ''r1'', res_type = BROWSE_VIEW_PAGE_RESPONSE,
           res_data = BrowseViewPageResponseData
             (map view_of [game_of ''g2'' ''Mario Kart'', game_of ''g3'' ''Zelda'']) 1 3\<rparr>)]"
    by (simp only: w e l append_Nil)
  moreover from h have "queries browse_state (query_hash list_store (copy_query query0)) \<noteq> None"
    by (simp only: option.distinct not_False_eq_True)
  ultimately show ?thesis by (rule conjI[rotated])
qed

text \<open>
  C5: the handler folds the title but compares it with the prefix as it was sent. With
  the cached results of \<open>query0\<close>, whose first title is Mario, the prefix Ma finds
  nothing, while the prefix ma finds the first entry.
\<close>

theorem quick_search_capital_prefix:
  "sent (QUICK_SEARCH list_store 1 ''r1'' query0 ''Ma'' browse_state) =
     [(1, \<lparr>res_id = ''r1'', res_type = GENERIC_RESPONSE,
           res_data = QuickSearchResponseData None None\<rparr>)] \<and>
   sent (QUICK_SEARCH list_store 1 ''r1'' query0 ''ma'' browse_state) =
     [(1, \<lparr>res_id = ''r1'', res_type = GENERIC_RESPONSE,
           res_data = QuickSearchResponseData (Some ''g1'') (Some 0)\<rparr>)] \<and>
   startsWith (toLowerCase (title (three_games ! 0))) (toLowerCase ''Ma'')"
  by code_simp

section \<open>Playlist files\<close>

text \<open>
  C3: the delete-playlist handler awaits \<open>deletePlaylist\<close>, whose \<open>unlink\<close> is not
  inside a \<open>try\<close>. When the playlist list still names a file that is gone, the promise
  of the handler rejects before \<open>respond\<close> is reached: no envelope is sent for the
  request.
\<close>

theorem delete_playlist_sends_nothing:
  "(case DELETE_PLAYLIST 7 ''req-1'' ''gone.json'' stale_state of
      Rejected e s \<Rightarrow> (Some e, sent s)
    | Resolved s \<Rightarrow> (None, sent s)) = (Some ENOENT, []) \<and>
   find (\<lambda>p. filename p = ''gone.json'') (playlists stale_state) \<noteq> None \<and>
   \<not> pathExists ''playlists/gone.json'' (files stale_state)"
  by code_simp

text \<open>
  C6: the number is looked for in the last element of \<open>parts\<close>, which is the extension
  when the name has one, not in the name. Saving a new playlist as \<open>Foo 2.json\<close> into a
  folder that holds \<open>Foo 2.json\<close> writes \<open>Foo 2 2.json\<close>; the candidate built from the
  stem, a space, the incremented number and the extension would be \<open>Foo 3.json\<close>. The
  example of the specification does hold: with \<open>Foo.json\<close> and \<open>Foo 2.json\<close> present,
  \<open>Foo.json\<close> is saved as \<open>Foo 3.json\<close>.
\<close>

theorem allocator_reads_number_from_extension:
  "coolFilename ''playlists'' ''Foo 2.json'' (files foo2_state) = ''Foo 2 2.json'' \<and>
   (case SAVE_PLAYLIST list_store 1 ''r1'' (foo_playlist ''Foo 2.json'') None foo2_state of
      Resolved s \<Rightarrow> (files s ''playlists/Foo 2 2.json'', files s ''playlists/Foo 3.json'')
    | Rejected e s \<Rightarrow> (None, None))
     = (Some (PlaylistJson (foo_playlist ''Foo 2.json'')), None) \<and>
   name_parts ''Foo 2.json'' = ([''Foo 2 '', ''.json''], 2) \<and>
   coolFilename ''playlists'' ''Foo.json'' (files foo_state) = ''Foo 3.json''"
  by code_simp

lemma find_name_exhausted:
  "(\<forall>k. n \<le> k \<and> k < 100 \<longrightarrow> pathExists (path_join [folder, candidate parts k]) fs)
   \<Longrightarrow> find_name folder fs parts n = None"
proof (induction folder fs parts n rule: find_name.induct)
  case (1 folder fs parts n)
  show ?case
  proof (cases "n < 100")
    case True
    with "1.prems" have here: "pathExists (path_join [folder, candidate parts n]) fs" by simp
    from "1.prems" have "\<forall>k. n + 1 \<le> k \<and> k < 100 \<longrightarrow> pathExists (path_join [folder, candidate parts k]) fs"
      by simp
    with "1.IH"[OF True refl] here have "find_name folder fs parts (n + 1) = None" by simp
    with True here show ?thesis by (subst find_name.simps) simp
  next
    case False
    then show ?thesis by (subst find_name.simps) simp
  qed
qed

lemma coolFilename_exhausted:
  assumes "pathExists (path_join [dir, fname]) fs" and "name_parts fname = (parts, n)"
    and "\<forall>k. n \<le> k \<and> k < 100 \<longrightarrow> pathExists (path_join [dir, candidate parts k]) fs"
  shows "coolFilename dir fname fs = []"
  using assms(1,2) find_name_exhausted[OF assms(3)] by (simp add: coolFilename_def)

text \<open>
  C7. When the name to save under exists in the folder, is not the previous name of the
  playlist, and every candidate the loop probes (from the first number up to 99)
  exists as well, the handler writes no file and deletes none: the state after the
  request is the state before it with one GENERIC_RESPONSE added for the request.
\<close>

theorem exhausted_allocation_writes_nothing:
  assumes "playlistFolder s = Some dir" and "dir \<noteq> []"
    and "fname = sanitizeFilename ext
           (if filename pl \<noteq> [] then filename pl else playlist_title pl @ ''.json'')"
    and "fname \<noteq> []" and "prev \<noteq> Some fname"
    and "pathExists (path_join [dir, fname]) (files s)"
    and "name_parts fname = (parts, n)"
    and "\<forall>k. n \<le> k \<and> k < 100 \<longrightarrow> pathExists (path_join [dir, candidate parts k]) (files s)"
  shows "SAVE_PLAYLIST ext target req_id pl prev s =
           Resolved (s\<lparr>sent := sent s @ [(target, \<lparr>res_id = req_id, res_type = GENERIC_RESPONSE,
                                                    res_data = NoData\<rparr>)]\<rparr>) \<and>
         coolFilename dir fname (files s) = []"
proof -
  have c: "coolFilename dir fname (files s) = []"
    using assms(6,7,8) by (rule coolFilename_exhausted)
  have "SAVE_PLAYLIST ext target req_id pl prev s =
          Resolved (respond target \<lparr>res_id = req_id, res_type = GENERIC_RESPONSE, res_data = NoData\<rparr> s)"
    unfolding SAVE_PLAYLIST_def Let_def assms(3)[symmetric]
    using assms(1,2,4,5) c by simp
  then show ?thesis using c by (simp add: respond_def)
qed

lemma name_parts_Foo: "name_parts ''Foo.json'' = ([''Foo '', ''.json''], 2)"
  by code_simp

lemma decimal_2_99: "string_of_nat 2 = ''2''" "string_of_nat 99 = ''99''"
  by code_simp+

lemma split_slash_plain: "CHR ''/'' \<notin> set a \<Longrightarrow> split_slash a = [a]"
  by (induction a) auto

lemma split_slash_two:
  "CHR ''/'' \<notin> set a \<Longrightarrow> CHR ''/'' \<notin> set b \<Longrightarrow> split_slash (a @ CHR ''/'' # b) = [a, b]"
  by (induction a) (auto simp: split_slash_plain)

text \<open>On two plain names (not empty, without a slash, neither \<open>.\<close> nor \<open>..\<close>)
  \<open>path.join\<close> puts a slash between them.\<close>

lemma path_join_plain:
  assumes "a \<noteq> []" "CHR ''/'' \<notin> set a" "a \<noteq> ''.''" "a \<noteq> ''..''"
    and "b \<noteq> []" "CHR ''/'' \<notin> set b" "b \<noteq> ''.''" "b \<noteq> ''..''"
  shows "path_join [a, b] = a @ ''/'' @ b"
proof -
  have j: "join_slash (filter (\<lambda>arg. arg \<noteq> []) [a, b]) = a @ CHR ''/'' # b"
    using assms(1,5) by simp
  have s: "split_slash (a @ CHR ''/'' # b) = [a, b]"
    using assms(2,6) by (rule split_slash_two)
  have n: "normalizeString [a, b] True [] = [a, b]"
    using assms(1,3,4,5,7,8) by simp
  have h: "hd (a @ CHR ''/'' # b) \<noteq> CHR ''/''"
    using assms(1,2) by (cases a) auto
  have l: "last (a @ CHR ''/'' # b) \<noteq> CHR ''/''"
    using assms(5,6) by (metis last_ConsR last_appendR last_in_set list.distinct(1))
  have "path_normalize (a @ CHR ''/'' # b) = a @ CHR ''/'' # b"
    using h l assms(1,5) by (simp add: path_normalize_def Let_def s n del: normalizeString.simps)
  then show ?thesis unfolding path_join_def j Let_def by simp
qed

lemma string_of_nat_digits: "set (string_of_nat n) \<subseteq> char_of ` {48..<58::nat} \<and> string_of_nat n \<noteq> []"
proof (induction n rule: string_of_nat.induct)
  case (1 n)
  show ?case
  proof (cases "n < 10")
    case True
    then show ?thesis by (subst (1 2) string_of_nat.simps) auto
  next
    case False
    have "48 + n mod 10 \<in> {48..<58::nat}" by simp
    then have "char_of (48 + n mod 10) \<in> char_of ` {48..<58::nat}" by (rule imageI)
    with "1.IH"[OF False] False show ?thesis by (subst (1 2) string_of_nat.simps) auto
  qed
qed

lemma string_of_nat_no_slash: "CHR ''/'' \<notin> set (string_of_nat n)"
proof
  assume "CHR ''/'' \<in> set (string_of_nat n)"
  with string_of_nat_digits[of n] obtain d :: nat where d: "d \<in> {48..<58}" "CHR ''/'' = char_of d"
    by auto
  then have "(of_char (CHR ''/'') :: nat) = of_char (char_of d :: char)" by simp
  with d(1) show False by simp
qed

lemma path_Foo: "path_join [''playlists'', ''Foo.json''] = ''playlists/Foo.json''"
  by code_simp

lemma path_candidate:
  "path_join [''playlists'', candidate [''Foo '', ''.json''] k]
   = ''playlists/Foo '' @ string_of_nat k @ ''.json''"
proof -
  have "path_join [''playlists'', ''Foo '' @ string_of_nat k @ ''.json'']
        = ''playlists'' @ ''/'' @ (''Foo '' @ string_of_nat k @ ''.json'')"
    by (rule path_join_plain) (simp_all add: string_of_nat_no_slash)
  then show ?thesis by (simp add: candidate_def)
qed

lemma full_folder_candidates:
  "\<forall>k. 2 \<le> k \<and> k < 100 \<longrightarrow>
     pathExists (path_join [''playlists'', candidate [''Foo '', ''.json''] k]) full_folder"
proof (intro allI impI)
  fix k :: nat assume "2 \<le> k \<and> k < 100"
  then have "''playlists/Foo '' @ string_of_nat k @ ''.json''
             \<in> (\<lambda>k. ''playlists/Foo '' @ string_of_nat k @ ''.json'') ` {2..<100}"
    by (intro imageI) simp
  then show "pathExists (path_join [''playlists'', candidate [''Foo '', ''.json''] k]) full_folder"
    by (simp add: pathExists_def full_folder_def path_candidate)
qed

theorem exhausted_allocation_writes_nothing_witness:
  "pathExists ''playlists/Foo.json'' (files full_state) \<and>
   pathExists ''playlists/Foo 2.json'' (files full_state) \<and>
   pathExists ''playlists/Foo 99.json'' (files full_state) \<and>
   SAVE_PLAYLIST list_store 1 ''r1'' (foo_playlist ''Foo.json'') None full_state =
     Resolved (full_state\<lparr>sent := sent full_state @
        [(1, \<lparr>res_id = ''r1'', res_type = GENERIC_RESPONSE, res_data = NoData\<rparr>)]\<rparr>)"
proof -
  have f: "files full_state = full_folder" "playlistFolder full_state = Some ''playlists''"
    by (simp_all add: full_state_def browse_state_def)
  have n: "''Foo.json'' = sanitizeFilename list_store
      (if filename (foo_playlist ''Foo.json'') \<noteq> [] then filename (foo_playlist ''Foo.json'')
       else playlist_title (foo_playlist ''Foo.json'') @ ''.json'')"
    by (simp add: list_store_def foo_playlist_def)
  have e: "pathExists (path_join [''playlists'', ''Foo.json'']) (files full_state)"
    by (simp add: f pathExists_def full_folder_def path_Foo)
  have c: "\<forall>k. 2 \<le> k \<and> k < 100 \<longrightarrow>
     pathExists (path_join [''playlists'', candidate [''Foo '', ''.json''] k]) (files full_state)"
    using full_folder_candidates by (simp only: f)
  have p: "pathExists ''playlists/Foo.json'' (files full_state)"
    "pathExists ''playlists/Foo 2.json'' (files full_state)"
    "pathExists ''playlists/Foo 99.json'' (files full_state)"
    using e c[rule_format, of 2] c[rule_format, of 99] decimal_2_99
    by (simp_all add: path_candidate path_Foo)
  have "(None :: string option) \<noteq> Some ''Foo.json''" by simp
  from exhausted_allocation_writes_nothing[OF f(2) _ n _ this e name_parts_Foo c, of 1 "''r1''"] p
  show ?thesis by simp
qed

section \<open>Start-up milestones are one-shot\<close>

lemma init_listen_loop_eq:
  "init_listen_loop xs target reported listeners =
     (reported @ map fst (filter snd xs),
      listeners @ map (\<lambda>(key, finished). (key, target)) (filter (\<lambda>(key, finished). \<not> finished) xs))"
  by (induction xs arbitrary: reported listeners) auto

lemma filter_key_distinct:
  "distinct (map fst xs) \<Longrightarrow> map_of xs k = Some v \<Longrightarrow> filter (\<lambda>(key, d). key = k) xs = [(k, v)]"
proof (induction xs)
  case Nil
  then show ?case by simp
next
  case (Cons x xs)
  obtain key d where x: "x = (key, d)" by (cases x)
  show ?case
  proof (cases "key = k")
    case True
    with Cons.prems x have "k \<notin> fst ` set xs" "d = v" by auto
    then have "filter (\<lambda>(key, d). key = k) xs = []"
      by (auto simp: filter_empty_conv image_iff)
    with True x \<open>d = v\<close> show ?thesis by simp
  next
    case False
    with Cons x show ?thesis by simp
  qed
qed

lemma new_listeners_for:
  assumes "distinct (map fst xs)" and "map_of xs m = Some v"
  shows "filter (\<lambda>(event, target). event = m)
           (map (\<lambda>(key, finished). (key, ch)) (filter (\<lambda>(key, finished). \<not> finished) xs))
         = (if v then [] else [(m, ch)])"
proof -
  have "filter (\<lambda>(event, target). event = m)
           (map (\<lambda>(key, finished). (key, ch)) (filter (\<lambda>(key, finished). \<not> finished) xs))
        = map (\<lambda>(key, finished). (key, ch))
            (filter (\<lambda>(key, finished). \<not> finished) (filter (\<lambda>(key, d). key = m) xs))"
    by (induction xs) auto
  also have "\<dots> = (if v then [] else [(m, ch)])"
    by (simp add: filter_key_distinct[OF assms])
  finally show ?thesis .
qed

lemma INIT_LISTEN_fields:
  "init (INIT_LISTEN ch req_id s) = init s"
  "initEmitter (INIT_LISTEN ch req_id s) =
     initEmitter s @ map (\<lambda>(key, finished). (key, ch)) (filter (\<lambda>(key, finished). \<not> finished) (init s))"
  "sent (INIT_LISTEN ch req_id s) =
     sent s @ [(ch, \<lparr>res_id = req_id, res_type = INIT_EVENT,
                     res_data = InitEventData (map fst (filter snd (init s)))\<rparr>)]"
  by (simp_all add: INIT_LISTEN_def init_listen_loop_eq respond_def)

lemma fold_respond_fields:
  "sent (fold (\<lambda>(event, target). respond target (f event)) xs s)
     = sent s @ map (\<lambda>(event, target). (target, f event)) xs"
  "init (fold (\<lambda>(event, target). respond target (f event)) xs s) = init s"
  "initEmitter (fold (\<lambda>(event, target). respond target (f event)) xs s) = initEmitter s"
  by (induction xs arbitrary: s) (simp_all add: respond_def split: prod.splits)

lemma emit_fields:
  "sent (emit name s) =
     sent s @ map (\<lambda>(event, target). (target, init_event event))
                  (filter (\<lambda>(event, target). event = name) (initEmitter s))"
  "init (emit name s) = init s"
  "initEmitter (emit name s) = filter (\<lambda>(event, target). event \<noteq> name) (initEmitter s)"
  by (simp_all add: emit_def Let_def init_event_def
      fold_respond_fields[where f = init_event, unfolded init_event_def])

lemma emit_idle:
  assumes "filter (\<lambda>(event, target). event = name) (initEmitter s) = []"
  shows "emit name s = s"
proof -
  from assms have "\<forall>x \<in> set (initEmitter s). (case x of (event, target) \<Rightarrow> event \<noteq> name)"
    by (auto simp: filter_empty_conv)
  then have "filter (\<lambda>(event, target). event \<noteq> name) (initEmitter s) = initEmitter s"
    by (simp add: filter_id_conv)
  with assms show ?thesis by (simp add: emit_def)
qed

lemma map_of_assign: "map_of (assign xs k v) k = Some v"
  by (induction xs) auto

lemma complete_pending:
  assumes "map_of (init s) m = Some False"
  shows "sent (complete m s) =
           sent s @ map (\<lambda>(event, target). (target, init_event event))
                        (filter (\<lambda>(event, target). event = m) (initEmitter s))"
    and "complete m (complete m s) = complete m s"
    and "emit m (complete m s) = complete m s"
proof -
  let ?s' = "s\<lparr>init := assign (init s) m True\<rparr>"
  have c: "complete m s = emit m ?s'"
    using assms by (simp add: complete_def)
  show "sent (complete m s) =
           sent s @ map (\<lambda>(event, target). (target, init_event event))
                        (filter (\<lambda>(event, target). event = m) (initEmitter s))"
    by (simp add: c emit_fields)
  have "map_of (init (complete m s)) m = Some True"
    by (simp add: c emit_fields map_of_assign)
  then show "complete m (complete m s) = complete m s"
    by (simp add: complete_def)
  have "filter (\<lambda>(event, target). event = m) (initEmitter (complete m s)) = []"
    by (auto simp: c emit_fields filter_empty_conv)
  then show "emit m (complete m s) = complete m s"
    by (rule emit_idle)
qed

lemma count_for_channel:
  "length (filter (\<lambda>(target, res). target = ch)
             (map (\<lambda>(event, target). (target, f event)) xs))
   = length (filter (\<lambda>(event, target). target = ch) xs)"
  by (induction xs) auto

lemma filter_event_channel:
  "filter (\<lambda>(event, target). target = ch) (filter (\<lambda>(event, target). event = m) xs)
   = filter (\<lambda>(event, target). event = m \<and> target = ch) xs"
  by (induction xs) auto

text \<open>
  C9, as stated, fails for a channel that sends the listen request twice while the stage
  is pending: each request adds a listener of its own, and the completion of the stage
  sends the event with the empty id to the channel twice.
\<close>

theorem double_listen_gets_two_events:
  "map_of (init browse_state) 1 = Some False \<and>
   sent (complete 1 (INIT_LISTEN 3 ''r2'' (INIT_LISTEN 3 ''r1'' browse_state))) =
     [(3, \<lparr>res_id = ''r1'', res_type = INIT_EVENT, res_data = InitEventData [0]\<rparr>),
      (3, \<lparr>res_id = ''r2'', res_type = INIT_EVENT, res_data = InitEventData [0]\<rparr>),
      (3, init_event 1), (3, init_event 1)]"
  by code_simp

text \<open>
  C9, amended: one event for each listen request. A listen request from channel \<open>ch\<close>
  while stage \<open>m\<close> is pending adds one listener for \<open>ch\<close>; completing \<open>m\<close> then marks
  \<open>m\<close> done and sends the event with the empty id once for every listener of \<open>m\<close>,
  the one of \<open>ch\<close> last, so that \<open>ch\<close> gets one event for this request and one for
  each listener it had for \<open>m\<close> before; the listeners of \<open>m\<close> are removed, and nothing
  more is sent when \<open>m\<close> is completed or emitted again. A listen request made when \<open>m\<close>
  is done adds no listener for \<open>m\<close>, reports \<open>m\<close> in the response with the request's
  id, and a later completion of \<open>m\<close> changes nothing.
\<close>

theorem milestone_subscription_one_shot:
  assumes "distinct (map fst (init s))"
  shows "(map_of (init s) m = Some False \<longrightarrow>
           sent (complete m (INIT_LISTEN ch req_id s)) =
             sent (INIT_LISTEN ch req_id s) @
             map (\<lambda>(event, target). (target, init_event event))
                 (filter (\<lambda>(event, target). event = m) (initEmitter s)) @ [(ch, init_event m)] \<and>
           length (filter (\<lambda>(target, res). target = ch)
             (drop (length (sent (INIT_LISTEN ch req_id s)))
                   (sent (complete m (INIT_LISTEN ch req_id s)))))
             = length (filter (\<lambda>(event, target). event = m \<and> target = ch) (initEmitter s)) + 1 \<and>
           length (filter (\<lambda>(event, target). event = m \<and> target = ch)
                     (initEmitter (INIT_LISTEN ch req_id s)))
             = length (filter (\<lambda>(event, target). event = m \<and> target = ch) (initEmitter s)) + 1 \<and>
           map_of (init (complete m (INIT_LISTEN ch req_id s))) m = Some True \<and>
           filter (\<lambda>(event, target). event = m) (initEmitter (complete m (INIT_LISTEN ch req_id s))) = [] \<and>
           complete m (complete m (INIT_LISTEN ch req_id s)) = complete m (INIT_LISTEN ch req_id s) \<and>
           emit m (complete m (INIT_LISTEN ch req_id s)) = complete m (INIT_LISTEN ch req_id s)) \<and>
         (map_of (init s) m = Some True \<longrightarrow>
           filter (\<lambda>(event, target). event = m) (initEmitter (INIT_LISTEN ch req_id s))
             = filter (\<lambda>(event, target). event = m) (initEmitter s) \<and>
           complete m (INIT_LISTEN ch req_id s) = INIT_LISTEN ch req_id s \<and>
           (\<exists>done. m \<in> set done \<and>
              sent (INIT_LISTEN ch req_id s) =
                sent s @ [(ch, \<lparr>res_id = req_id, res_type = INIT_EVENT,
                                res_data = InitEventData done\<rparr>)]))"
proof (intro conjI impI)
  assume p: "map_of (init s) m = Some False"
  let ?s1 = "INIT_LISTEN ch req_id s"
  let ?old = "filter (\<lambda>(event, target). event = m) (initEmitter s)"
  have p1: "map_of (init ?s1) m = Some False"
    using p by (simp add: INIT_LISTEN_fields)
  have l: "filter (\<lambda>(event, target). event = m) (initEmitter ?s1) = ?old @ [(m, ch)]"
    using new_listeners_for[OF assms p, of ch] by (simp add: INIT_LISTEN_fields)
  have "map (\<lambda>(event, target). (target, init_event event)) ?old
        = map (\<lambda>(event, target). (target, init_event m)) ?old"
    by (rule map_cong) auto
  then show s2: "sent (complete m ?s1) = sent ?s1 @
             map (\<lambda>(event, target). (target, init_event event)) ?old @ [(ch, init_event m)]"
    by (simp add: complete_pending(1)[OF p1] l)
  have "length (filter (\<lambda>(target, res). target = ch)
          (map (\<lambda>(event, target). (target, init_event event)) ?old))
        = length (filter (\<lambda>(event, target). event = m \<and> target = ch) (initEmitter s))"
    by (simp only: count_for_channel filter_event_channel)
  then show "length (filter (\<lambda>(target, res). target = ch)
                (drop (length (sent ?s1)) (sent (complete m ?s1))))
             = length (filter (\<lambda>(event, target). event = m \<and> target = ch) (initEmitter s)) + 1"
    by (simp add: s2)
  have e1: "filter (\<lambda>(event, target). event = m \<and> target = ch) (initEmitter ?s1)
            = filter (\<lambda>(event, target). target = ch)
                (filter (\<lambda>(event, target). event = m) (initEmitter ?s1))"
    by (rule filter_event_channel[symmetric])
  have e2: "filter (\<lambda>(event, target). target = ch) (?old @ [(m, ch)])
            = filter (\<lambda>(event, target). target = ch) ?old @ [(m, ch)]"
    by simp
  have e3: "filter (\<lambda>(event, target). target = ch) ?old
            = filter (\<lambda>(event, target). event = m \<and> target = ch) (initEmitter s)"
    by (rule filter_event_channel)
  have "filter (\<lambda>(event, target). event = m \<and> target = ch) (initEmitter ?s1)
        = filter (\<lambda>(event, target). event = m \<and> target = ch) (initEmitter s) @ [(m, ch)]"
    by (simp only: e1 l e2 e3)
  then show "length (filter (\<lambda>(event, target). event = m \<and> target = ch) (initEmitter ?s1))
             = length (filter (\<lambda>(event, target). event = m \<and> target = ch) (initEmitter s)) + 1"
    by simp
  have c: "complete m ?s1 = emit m (?s1\<lparr>init := assign (init ?s1) m True\<rparr>)"
    using p1 by (simp add: complete_def)
  show "map_of (init (complete m ?s1)) m = Some True"
    by (simp add: c emit_fields map_of_assign)
  show "filter (\<lambda>(event, target). event = m) (initEmitter (complete m ?s1)) = []"
    by (auto simp: c emit_fields filter_empty_conv)
  show "complete m (complete m ?s1) = complete m ?s1"
    by (rule complete_pending(2)[OF p1])
  show "emit m (complete m ?s1) = complete m ?s1"
    by (rule complete_pending(3)[OF p1])
next
  assume d: "map_of (init s) m = Some True"
  let ?s1 = "INIT_LISTEN ch req_id s"
  show "filter (\<lambda>(event, target). event = m) (initEmitter ?s1)
        = filter (\<lambda>(event, target). event = m) (initEmitter s)"
    using new_listeners_for[OF assms d, of ch] by (simp add: INIT_LISTEN_fields)
  show "complete m ?s1 = ?s1"
    using d by (simp add: complete_def INIT_LISTEN_fields)
  from d have "(m, True) \<in> set (init s)" by (rule map_of_SomeD)
  then have "m \<in> set (map fst (filter snd (init s)))" by force
  then show "\<exists>done. m \<in> set done \<and>
              sent ?s1 = sent s @ [(ch, \<lparr>res_id = req_id, res_type = INIT_EVENT,
                                          res_data = InitEventData done\<rparr>)]"
    by (auto simp: INIT_LISTEN_fields)
qed

theorem milestone_subscription_one_shot_witness:
  "distinct (map fst (init browse_state)) \<and>
   map_of (init browse_state) 1 = Some False \<and> map_of (init browse_state) 0 = Some True \<and>
   sent (complete 1 (INIT_LISTEN 3 ''r1'' browse_state)) =
     [(3, \<lparr>res_id = ''r1'', res_type = INIT_EVENT, res_data = InitEventData [0]\<rparr>),
      (3, init_event 1)] \<and>
   length (filter (\<lambda>(target, res). target = 3)
     (drop (length (sent (INIT_LISTEN 3 ''r1'' browse_state)))
           (sent (complete 1 (INIT_LISTEN 3 ''r1'' browse_state))))) = 1 \<and>
   map_of (init (complete 1 (INIT_LISTEN 3 ''r1'' browse_state))) 1 = Some True \<and>
   complete 1 (complete 1 (INIT_LISTEN 3 ''r1'' browse_state))
     = complete 1 (INIT_LISTEN 3 ''r1'' browse_state) \<and>
   complete 0 (INIT_LISTEN 3 ''r1'' browse_state) = INIT_LISTEN 3 ''r1'' browse_state"
proof -
  have i: "init browse_state = [(0, True), (1, False)]" "initEmitter browse_state = []"
    "sent browse_state = []"
    by (simp_all add: browse_state_def)
  have d: "distinct (map fst (init browse_state))" by (simp add: i)
  have p: "map_of (init browse_state) 1 = Some False" "map_of (init browse_state) 0 = Some True"
    by (simp_all add: i)
  have s1: "sent (INIT_LISTEN 3 ''r1'' browse_state) =
      [(3, \<lparr>res_id = ''r1'', res_type = INIT_EVENT, res_data = InitEventData [0]\<rparr>)]"
    by (simp add: INIT_LISTEN_fields i)
  from milestone_subscription_one_shot[OF d, of 1 3 "''r1''"] p(1)
  have a: "sent (complete 1 (INIT_LISTEN 3 ''r1'' browse_state)) =
             sent (INIT_LISTEN 3 ''r1'' browse_state) @ [(3, init_event 1)]"
    and n: "length (filter (\<lambda>(target, res). target = 3)
              (drop (length (sent (INIT_LISTEN 3 ''r1'' browse_state)))
                    (sent (complete 1 (INIT_LISTEN 3 ''r1'' browse_state))))) = 1"
    and t: "map_of (init (complete 1 (INIT_LISTEN 3 ''r1'' browse_state))) 1 = Some True"
    and b: "complete 1 (complete 1 (INIT_LISTEN 3 ''r1'' browse_state))
            = complete 1 (INIT_LISTEN 3 ''r1'' browse_state)"
    by (simp_all add: i)
  from milestone_subscription_one_shot[OF d, of 0 3 "''r1''"] p(2)
  have c: "complete 0 (INIT_LISTEN 3 ''r1'' browse_state) = INIT_LISTEN 3 ''r1'' browse_state"
    by simp
  have a': "sent (complete 1 (INIT_LISTEN 3 ''r1'' browse_state)) =
     [(3, \<lparr>res_id = ''r1'', res_type = INIT_EVENT, res_data = InitEventData [0]\<rparr>),
      (3, init_event 1)]"
    using a s1 by simp
  from d p a' n t b c show ?thesis by (intro conjI)
qed

section \<open>The settings diff\<close>

lemma get_prop_obj: "is_obj v \<Longrightarrow> get_prop v key = Inr (field_of v key)"
  by (cases v) simp_all

lemma strict_eq_refl: "strict_eq v v = (v \<noteq> NaN)"
  by (cases v) simp_all

lemma is_leaf_not_obj: "is_leaf v = (\<not> is_obj v)"
  by (cases v) simp_all

lemma leaves_not_both_objects:
  "is_leaf v \<Longrightarrow> is_leaf w \<Longrightarrow> v \<noteq> w \<Longrightarrow> \<not> (typeof_object v \<and> typeof_object w)"
  by (cases v; cases w) simp_all

lemma strict_eq_leaf: "is_leaf v \<Longrightarrow> is_leaf w \<Longrightarrow> v \<noteq> w \<Longrightarrow> \<not> strict_eq v w"
  by (cases v; cases w) simp_all

lemma is_obj_facts: "is_obj v \<Longrightarrow> typeof_object v \<and> v \<noteq> Undefined \<and> v \<noteq> NaN"
  by (cases v) simp_all

lemma matches_Obj:
  "matches (Obj i tms) v = (is_obj v \<and> (\<forall>(key, tv) \<in> set tms. matches tv (field_of v key)))"
  by (cases v) (auto simp: matches.simps list_all_iff)

lemma matches_leaf: "\<not> is_obj tv \<Longrightarrow> matches tv v = is_leaf v"
  by (cases tv) (simp_all add: matches.simps)

lemma same_on_Obj:
  "same_on (Obj i tms) a b = (\<forall>(key, tv) \<in> set tms. same_on tv (field_of a key) (field_of b key))"
  by (auto simp: same_on.simps list_all_iff)

lemma same_on_leaf: "\<not> is_obj tv \<Longrightarrow> same_on tv a b = (a = b)"
  by (cases tv) (simp_all add: same_on.simps)

lemma nan_free_Obj:
  "nan_free (Obj i tms) v = (\<forall>(key, tv) \<in> set tms. nan_free tv (field_of v key))"
  by (auto simp: nan_free.simps list_all_iff)

lemma nan_free_leaf: "\<not> is_obj tv \<Longrightarrow> nan_free tv v = (v \<noteq> NaN)"
  by (cases tv) (simp_all add: nan_free.simps)

lemma same_on_refl: "same_on t v v"
proof (induction t arbitrary: v)
  case (Obj i tms)
  have "same_on tv (field_of v key) (field_of v key)" if "(key, tv) \<in> set tms" for key tv
    using Obj.IH[of "(key, tv)" tv] that by auto
  then show ?case by (auto simp: same_on_Obj)
qed (simp_all add: same_on.simps)

text \<open>Members on which the two values agree add nothing to the result.\<close>

lemma dif_loop_quiet:
  assumes "is_obj a" and "is_obj b"
    and "\<forall>(key, tv) \<in> set members.
           matches tv (field_of a key) \<and> matches tv (field_of b key) \<and>
           same_on tv (field_of a key) (field_of b key) \<and> nan_free tv (field_of a key)"
  shows "dif_loop members a b dif = Inr dif"
  using assms
proof (induction members a b dif rule: dif_loop.induct)
  case (1 a b dif)
  show ?case by simp
next
  case (2 key tv rest a b dif)
  let ?av = "field_of a key" and ?bv = "field_of b key"
  have ga: "get_prop a key = Inr ?av" and gb: "get_prop b key = Inr ?bv"
    using "2.prems"(1,2) by (simp_all add: get_prop_obj)
  from "2.prems"(3) have q: "matches tv ?av" "matches tv ?bv" "same_on tv ?av ?bv" "nan_free tv ?av"
    by simp_all
  from "2.prems"(3) have r: "\<forall>(key, tv) \<in> set rest.
           matches tv (field_of a key) \<and> matches tv (field_of b key) \<and>
           same_on tv (field_of a key) (field_of b key) \<and> nan_free tv (field_of a key)"
    by simp
  show ?case
  proof (cases "\<not> strict_eq ?av ?bv \<and> ?bv \<noteq> Undefined")
    case False
    have "dif_loop ((key, tv) # rest) a b dif = dif_loop rest a b dif"
      by (simp only: dif_loop.simps ga gb sum.case if_not_P[OF False])
    with "2.IH"(5)[OF ga gb False "2.prems"(1,2) r]
    show ?thesis by (simp only:)
  next
    case True
    have "is_obj tv"
    proof (rule ccontr)
      assume n: "\<not> is_obj tv"
      with q have "?av = ?bv" "?av \<noteq> NaN" by (simp_all add: same_on_leaf nan_free_leaf)
      then have "strict_eq ?av ?bv" by (simp add: strict_eq_refl)
      with True show False by simp
    qed
    then obtain i tms where tv: "tv = Obj i tms" by (cases tv) simp_all
    from q tv have o: "is_obj ?av" "is_obj ?bv" by (simp_all add: matches_Obj)
    then have t: "typeof_object tv \<and> typeof_object ?av \<and> typeof_object ?bv"
      using tv by (simp add: is_obj_facts)
    from q tv have inner: "\<forall>(k, t) \<in> set tms.
           matches t (field_of ?av k) \<and> matches t (field_of ?bv k) \<and>
           same_on t (field_of ?av k) (field_of ?bv k) \<and> nan_free t (field_of ?av k)"
      by (auto simp: matches_Obj same_on_Obj nan_free_Obj)
    have sub: "dif_loop tms ?av ?bv None = Inr None"
      by (rule "2.IH"(1)[OF ga gb True t tv o inner])
    then have c: "(case tv of Obj i members \<Rightarrow> dif_loop members ?av ?bv None | _ \<Rightarrow> Inr None)
                  = Inr None"
      by (simp add: tv)
    have "dif_loop ((key, tv) # rest) a b dif = dif_loop rest a b dif"
      by (simp only: dif_loop.simps ga gb sum.case if_P[OF True] if_P[OF t] c option.case)
    with "2.IH"(2)[OF ga gb True t c refl "2.prems"(1,2) r]
    show ?thesis by (simp only:)
  qed
qed

lemma difObjects_same:
  assumes "matches t a" and "matches t b" and "same_on t a b" and "nan_free t a"
  shows "difObjects t a b = Inr None"
proof (cases "is_obj t")
  case True
  then obtain i tms where t: "t = Obj i tms" by (cases t) simp_all
  with assms have "is_obj a" "is_obj b"
    "\<forall>(key, tv) \<in> set tms.
           matches tv (field_of a key) \<and> matches tv (field_of b key) \<and>
           same_on tv (field_of a key) (field_of b key) \<and> nan_free tv (field_of a key)"
    by (auto simp: matches_Obj same_on_Obj nan_free_Obj)
  then show ?thesis by (simp add: difObjects_def t dif_loop_quiet)
next
  case False
  then show ?thesis by (cases t) (simp_all add: difObjects_def)
qed

lemma dif_loop_Cons:
  "dif_loop (x # xs) a b dif =
     (case dif_loop [x] a b dif of Inl e \<Rightarrow> Inl e | Inr d \<Rightarrow> dif_loop xs a b d)"
  by (cases x) (simp split: sum.splits option.splits jsval.splits)

lemma dif_loop_append:
  "dif_loop (xs @ ys) a b dif =
     (case dif_loop xs a b dif of Inl e \<Rightarrow> Inl e | Inr d \<Rightarrow> dif_loop ys a b d)"
proof (induction xs arbitrary: dif)
  case Nil
  show ?case by simp
next
  case (Cons x xs)
  have "dif_loop ((x # xs) @ ys) a b dif =
          (case dif_loop [x] a b dif of Inl e \<Rightarrow> Inl e | Inr d \<Rightarrow> dif_loop (xs @ ys) a b d)"
    using dif_loop_Cons[of x "xs @ ys" a b dif] by simp
  also have "\<dots> = (case dif_loop [x] a b dif of Inl e \<Rightarrow> Inl e
                    | Inr d \<Rightarrow> (case dif_loop xs a b d of Inl e \<Rightarrow> Inl e
                                | Inr d' \<Rightarrow> dif_loop ys a b d'))"
    by (simp only: Cons.IH)
  also have "\<dots> = (case dif_loop (x # xs) a b dif of Inl e \<Rightarrow> Inl e | Inr d \<Rightarrow> dif_loop ys a b d)"
    by (subst (2) dif_loop_Cons) (simp split: sum.splits)
  finally show ?case .
qed

lemma leaf_step:
  assumes "is_obj a" and "is_obj b"
    and "is_leaf (field_of a k)" and "is_leaf (field_of b k)" and "field_of a k \<noteq> field_of b k"
    and "field_of b k \<noteq> Undefined"
  shows "dif_loop [(k, tv)] a b dif =
           Inr (Some (assign (case dif of None \<Rightarrow> [] | Some d \<Rightarrow> d) k (Leaf (field_of b k))))"
proof -
  have c: "\<not> strict_eq (field_of a k) (field_of b k) \<and> field_of b k \<noteq> Undefined"
    using assms(3,4,5,6) by (simp add: strict_eq_leaf)
  have t: "\<not> (typeof_object tv \<and> typeof_object (field_of a k) \<and> typeof_object (field_of b k))"
    using leaves_not_both_objects[OF assms(3,4,5)] by simp
  show ?thesis
    by (simp only: dif_loop.simps get_prop_obj[OF assms(1)] get_prop_obj[OF assms(2)] sum.case
        if_P[OF c] if_not_P[OF t])
qed

lemma nested_step:
  assumes "is_obj a" and "is_obj b"
    and "is_obj (field_of a k)" and "is_obj (field_of b k)"
    and "\<not> strict_eq (field_of a k) (field_of b k)"
    and "dif_loop tms (field_of a k) (field_of b k) None = Inr (Some sub)"
  shows "dif_loop [(k, Obj i tms)] a b dif =
           Inr (Some (assign (case dif of None \<Rightarrow> [] | Some d \<Rightarrow> d) k (Sub sub)))"
proof -
  have c: "\<not> strict_eq (field_of a k) (field_of b k) \<and> field_of b k \<noteq> Undefined"
    using assms(4,5) by (simp add: is_obj_facts)
  have t: "typeof_object (Obj i tms) \<and> typeof_object (field_of a k) \<and> typeof_object (field_of b k)"
    using assms(3,4) by (simp add: is_obj_facts)
  show ?thesis
    by (simp only: dif_loop.simps get_prop_obj[OF assms(1)] get_prop_obj[OF assms(2)] sum.case
        if_P[OF c] if_P[OF t] jsval.case assms(6) option.case)
qed

text \<open>If one member of the template produces the patch \<open>p\<close> and the values agree on
  all the others, the result has that member only.\<close>

lemma dif_loop_one_change:
  assumes "is_obj a" and "is_obj b" and "distinct (map fst members)" and "(k0, tv0) \<in> set members"
    and quiet: "\<forall>(key, tv) \<in> set members. key \<noteq> k0 \<longrightarrow>
           matches tv (field_of a key) \<and> matches tv (field_of b key) \<and>
           same_on tv (field_of a key) (field_of b key) \<and> nan_free tv (field_of a key)"
    and step: "dif_loop [(k0, tv0)] a b None = Inr (Some [(k0, p)])"
  shows "dif_loop members a b None = Inr (Some [(k0, p)])"
proof -
  from assms(4) obtain pre post where m: "members = pre @ (k0, tv0) # post"
    by (auto simp: in_set_conv_decomp)
  with assms(3) have k: "k0 \<notin> fst ` set pre" "k0 \<notin> fst ` set post" by auto
  have qpre: "\<forall>(key, tv) \<in> set pre.
           matches tv (field_of a key) \<and> matches tv (field_of b key) \<and>
           same_on tv (field_of a key) (field_of b key) \<and> nan_free tv (field_of a key)"
  proof (intro ballI, clarify)
    fix key tv assume i: "(key, tv) \<in> set pre"
    with k(1) have "key \<noteq> k0" by force
    moreover from i m have "(key, tv) \<in> set members" by simp
    ultimately show "matches tv (field_of a key) \<and> matches tv (field_of b key) \<and>
           same_on tv (field_of a key) (field_of b key) \<and> nan_free tv (field_of a key)"
      using quiet by fast
  qed
  have qpost: "\<forall>(key, tv) \<in> set post.
           matches tv (field_of a key) \<and> matches tv (field_of b key) \<and>
           same_on tv (field_of a key) (field_of b key) \<and> nan_free tv (field_of a key)"
  proof (intro ballI, clarify)
    fix key tv assume i: "(key, tv) \<in> set post"
    with k(2) have "key \<noteq> k0" by force
    moreover from i m have "(key, tv) \<in> set members" by simp
    ultimately show "matches tv (field_of a key) \<and> matches tv (field_of b key) \<and>
           same_on tv (field_of a key) (field_of b key) \<and> nan_free tv (field_of a key)"
      using quiet by fast
  qed
  have 1: "dif_loop pre a b None = Inr None"
    by (rule dif_loop_quiet[OF assms(1,2) qpre])
  have 2: "dif_loop post a b (Some [(k0, p)]) = Inr (Some [(k0, p)])"
    by (rule dif_loop_quiet[OF assms(1,2) qpost])
  have "dif_loop ((k0, tv0) # post) a b None = Inr (Some [(k0, p)])"
    by (subst dif_loop_Cons) (simp only: step sum.case 2)
  then show ?thesis
    by (simp only: m dif_loop_append 1 sum.case)
qed

lemma difObjects_one_leaf:
  assumes ma: "matches t a" and mb: "matches t b" and nf: "nan_free t a"
    and d: "differs_only_at t kn kl a b"
  shows "difObjects t a b = Inr (Some [(kn, Sub [(kl, Leaf (field_of (field_of b kn) kl))])])"
proof -
  from d obtain i tms where t: "t = Obj i tms"
    by (cases t) (simp_all add: differs_only_at_def)
  from d t obtain tn where n0: "map_of tms kn = Some tn"
    by (cases "map_of tms kn") (simp_all add: differs_only_at_def)
  from d t n0 obtain j nms where tn: "tn = Obj j nms"
    by (cases tn) (simp_all add: differs_only_at_def)
  from n0 tn have n: "map_of tms kn = Some (Obj j nms)" by simp
  from d t n obtain tleaf where l: "map_of nms kl = Some tleaf"
    by (cases "map_of nms kl") (simp_all add: differs_only_at_def)
  from d have all: "\<not> is_obj tleaf \<and> distinct (map fst tms) \<and> distinct (map fst nms) \<and>
      list_all (\<lambda>(key, tv). key = kn \<or> same_on tv (field_of a key) (field_of b key)) tms \<and>
      list_all (\<lambda>(key, tv). key = kl \<or> same_on tv (field_of (field_of a kn) key)
                                            (field_of (field_of b kn) key)) nms \<and>
      field_of (field_of a kn) kl \<noteq> field_of (field_of b kn) kl \<and>
      field_of (field_of b kn) kl \<noteq> Undefined \<and>
      \<not> strict_eq (field_of a kn) (field_of b kn)"
    by (simp add: differs_only_at_def t n l)
  then have lf: "\<not> is_obj tleaf" and dt: "distinct (map fst tms)" and dn: "distinct (map fst nms)"
    and ne: "field_of (field_of a kn) kl \<noteq> field_of (field_of b kn) kl"
    and nu: "field_of (field_of b kn) kl \<noteq> Undefined"
    and ns: "\<not> strict_eq (field_of a kn) (field_of b kn)"
    by simp_all
  from all have st: "\<forall>(key, tv) \<in> set tms. key \<noteq> kn \<longrightarrow> same_on tv (field_of a key) (field_of b key)"
    and sn: "\<forall>(key, tv) \<in> set nms. key \<noteq> kl \<longrightarrow>
               same_on tv (field_of (field_of a kn) key) (field_of (field_of b kn) key)"
    by (auto simp: list_all_iff)
  from n l have int: "(kn, Obj j nms) \<in> set tms" and inn: "(kl, tleaf) \<in> set nms"
    by (auto dest: map_of_SomeD)
  let ?an = "field_of a kn" and ?bn = "field_of b kn"
  from ma mb nf t have oa: "is_obj a" and ob: "is_obj b"
    and ta: "\<forall>(key, tv) \<in> set tms. matches tv (field_of a key)"
    and tb: "\<forall>(key, tv) \<in> set tms. matches tv (field_of b key)"
    and tf: "\<forall>(key, tv) \<in> set tms. nan_free tv (field_of a key)"
    by (simp_all add: matches_Obj nan_free_Obj)
  from ta tb tf int have "matches (Obj j nms) ?an" "matches (Obj j nms) ?bn" "nan_free (Obj j nms) ?an"
    by fast+
  then have oan: "is_obj ?an" and obn: "is_obj ?bn"
    and na: "\<forall>(key, tv) \<in> set nms. matches tv (field_of ?an key)"
    and nb: "\<forall>(key, tv) \<in> set nms. matches tv (field_of ?bn key)"
    and nnf: "\<forall>(key, tv) \<in> set nms. nan_free tv (field_of ?an key)"
    by (simp_all add: matches_Obj nan_free_Obj)
  from na nb inn lf have la: "is_leaf (field_of ?an kl)" and lb: "is_leaf (field_of ?bn kl)"
    by (auto simp: matches_leaf)
  have qn: "\<forall>(key, tv) \<in> set nms. key \<noteq> kl \<longrightarrow>
           matches tv (field_of ?an key) \<and> matches tv (field_of ?bn key) \<and>
           same_on tv (field_of ?an key) (field_of ?bn key) \<and> nan_free tv (field_of ?an key)"
    using na nb nnf sn by auto
  have qt: "\<forall>(key, tv) \<in> set tms. key \<noteq> kn \<longrightarrow>
           matches tv (field_of a key) \<and> matches tv (field_of b key) \<and>
           same_on tv (field_of a key) (field_of b key) \<and> nan_free tv (field_of a key)"
    using ta tb tf st by auto
  have "dif_loop [(kl, tleaf)] ?an ?bn None = Inr (Some [(kl, Leaf (field_of ?bn kl))])"
    using leaf_step[OF oan obn la lb ne nu, of tleaf None] by simp
  then have inner: "dif_loop nms ?an ?bn None = Inr (Some [(kl, Leaf (field_of ?bn kl))])"
    by (rule dif_loop_one_change[OF oan obn dn inn qn])
  have "dif_loop [(kn, Obj j nms)] a b None = Inr (Some [(kn, Sub [(kl, Leaf (field_of ?bn kl))])])"
    using nested_step[OF oa ob oan obn ns inner, of j None] by simp
  then have "dif_loop tms a b None = Inr (Some [(kn, Sub [(kl, Leaf (field_of ?bn kl))])])"
    by (rule dif_loop_one_change[OF oa ob dt int qt])
  then show ?thesis by (simp add: difObjects_def t)
qed

lemma get_prop_Inr: "get_prop v key = Inr x \<Longrightarrow> x = field_of v key"
  by (cases v) auto

lemma changed_only_Cons:
  "changed_only a b (x # rest) = (changed_only a b [x] \<and> changed_only a b rest)"
proof -
  obtain key p where x: "x = (key, p)" by (cases x)
  show ?thesis by (cases p) (simp_all add: x)
qed

lemma assign_not_Nil: "assign d key p \<noteq> []"
  by (cases d) (auto split: if_splits)

lemma changed_only_assign:
  assumes "changed_only a b d" and "changed_only a b [(key, p)]"
  shows "changed_only a b (assign d key p)"
  using assms(1)
proof (induction d)
  case Nil
  show ?case using assms(2) by simp
next
  case (Cons x d)
  obtain k w where x: "x = (k, w)" by (cases x)
  from Cons.prems have h: "changed_only a b [x]" and r: "changed_only a b d"
    using changed_only_Cons[of a b x d] by simp_all
  show ?case
  proof (cases "k = key")
    case True
    then have "assign (x # d) key p = (key, p) # d" by (simp add: x)
    with assms(2) r changed_only_Cons[of a b "(key, p)" d] show ?thesis by simp
  next
    case False
    then have "assign (x # d) key p = x # assign d key p" by (simp add: x)
    with h Cons.IH[OF r] changed_only_Cons[of a b x "assign d key p"] show ?thesis by simp
  qed
qed

text \<open>Whatever \<open>difObjects\<close> returns holds changed members only, at every depth.\<close>

lemma dif_loop_changed_only:
  assumes "dif_loop members a b dif = Inr (Some d)"
    and "\<forall>d0. dif = Some d0 \<longrightarrow> changed_only a b d0 \<and> d0 \<noteq> []"
  shows "changed_only a b d \<and> d \<noteq> []"
  using assms
proof (induction members a b dif arbitrary: d rule: dif_loop.induct)
  case (1 a b dif)
  then show ?case by simp
next
  case (2 key tv rest a b dif)
  let ?d0 = "case dif of None \<Rightarrow> [] | Some d \<Rightarrow> d"
  from "2.prems"(2) have inv0: "changed_only a b ?d0" by (cases dif) simp_all
  from "2.prems"(1) obtain av where ga: "get_prop a key = Inr av"
    by (cases "get_prop a key") simp_all
  from "2.prems"(1) ga obtain bv where gb: "get_prop b key = Inr bv"
    by (cases "get_prop b key") simp_all
  have av: "av = field_of a key" and bv: "bv = field_of b key"
    using ga gb by (simp_all add: get_prop_Inr)
  show ?case
  proof (cases "\<not> strict_eq av bv \<and> bv \<noteq> Undefined")
    case False
    have "dif_loop ((key, tv) # rest) a b dif = dif_loop rest a b dif"
      by (simp only: dif_loop.simps ga gb sum.case if_not_P[OF False])
    with "2.prems"(1) have "dif_loop rest a b dif = Inr (Some d)" by (simp only:)
    from "2.IH"(5)[OF ga gb False this "2.prems"(2)] show ?thesis .
  next
    case c: True
    show ?thesis
    proof (cases "typeof_object tv \<and> typeof_object av \<and> typeof_object bv")
      case False
      let ?dif = "Some (assign ?d0 key (Leaf bv))"
      have "dif_loop ((key, tv) # rest) a b dif = dif_loop rest a b ?dif"
        by (simp only: dif_loop.simps ga gb sum.case if_P[OF c] if_not_P[OF False])
      with "2.prems"(1) have r: "dif_loop rest a b ?dif = Inr (Some d)" by (simp only:)
      have "changed_only a b [(key, Leaf bv)]" using c av bv by simp
      with inv0 have "changed_only a b (assign ?d0 key (Leaf bv))" by (rule changed_only_assign)
      then have "\<forall>d0. ?dif = Some d0 \<longrightarrow> changed_only a b d0 \<and> d0 \<noteq> []"
        by (simp add: assign_not_Nil)
      from "2.IH"(4)[OF ga gb c False r this] show ?thesis .
    next
      case t: True
      let ?inner = "case tv of Obj i members \<Rightarrow> dif_loop members av bv None | _ \<Rightarrow> Inr None"
      have u: "dif_loop ((key, tv) # rest) a b dif =
          (case ?inner of Inl e \<Rightarrow> Inl e
           | Inr None \<Rightarrow> dif_loop rest a b dif
           | Inr (Some subDif) \<Rightarrow> dif_loop rest a b (Some (assign ?d0 key (Sub subDif))))"
        by (simp only: dif_loop.simps ga gb sum.case if_P[OF c] if_P[OF t])
      show ?thesis
      proof (cases ?inner)
        case (Inl e)
        with u "2.prems"(1) show ?thesis by simp
      next
        case (Inr res)
        show ?thesis
        proof (cases res)
          case None
          with u Inr "2.prems"(1) have "dif_loop rest a b dif = Inr (Some d)" by simp
          from "2.IH"(2)[OF ga gb c t Inr None this "2.prems"(2)] show ?thesis .
        next
          case (Some sub)
          let ?dif = "Some (assign ?d0 key (Sub sub))"
          from u Inr Some "2.prems"(1) have r: "dif_loop rest a b ?dif = Inr (Some d)" by simp
          from Inr Some obtain i tms where tv: "tv = Obj i tms"
            by (cases tv) simp_all
          with Inr Some have "dif_loop tms av bv None = Inr (Some sub)" by simp
          from "2.IH"(1)[OF ga gb c t tv this] have "changed_only av bv sub \<and> sub \<noteq> []" by simp
          with c av bv have "changed_only a b [(key, Sub sub)]" by simp
          with inv0 have "changed_only a b (assign ?d0 key (Sub sub))" by (rule changed_only_assign)
          then have "\<forall>d0. ?dif = Some d0 \<longrightarrow> changed_only a b d0 \<and> d0 \<noteq> []"
            by (simp add: assign_not_Nil)
          from "2.IH"(3)[OF ga gb c t Inr Some r this] show ?thesis .
        qed
      qed
    qed
  qed
qed

lemma difObjects_changed_only:
  assumes "difObjects t a b = Inr (Some d)"
  shows "changed_only a b d \<and> d \<noteq> []"
proof (cases t)
  case (Obj i tms)
  with assms have "dif_loop tms a b None = Inr (Some d)" by (simp add: difObjects_def)
  then show ?thesis by (rule dif_loop_changed_only) simp
qed (use assms in \<open>simp_all add: difObjects_def\<close>)

text \<open>
  C8, as stated, fails for a value with a \<open>NaN\<close> leaf: \<open>NaN !== NaN\<close> holds, so the
  diff of the value with itself is not empty.
\<close>

theorem diff_of_nan_with_itself:
  "matches template0 settings_nan \<and>
   difObjects template0 settings_nan settings_nan = Inr (Some [(''scale'', Leaf NaN)])"
  by code_simp

text \<open>
  C8, amended. For values of the template's shape without \<open>NaN\<close> leaves: the diff of a
  value with itself is absent; when \<open>b\<close> differs from \<open>a\<close> only in one leaf of one
  nested object, the diff is exactly that nested member holding exactly that leaf with
  the value of \<open>b\<close>. For any values at all, every member of a returned diff, at any
  depth, has a value in \<open>b\<close> that is defined and not \<open>===\<close> to the value in \<open>a\<close>, and a
  returned diff is never empty.
\<close>

theorem settings_diff_minimal:
  "(matches t a \<and> nan_free t a \<longrightarrow> difObjects t a a = Inr None) \<and>
   (matches t a \<and> matches t b \<and> nan_free t a \<and> differs_only_at t nested leaf a b \<longrightarrow>
      difObjects t a b =
        Inr (Some [(nested, Sub [(leaf, Leaf (field_of (field_of b nested) leaf))])])) \<and>
   (difObjects t a b = Inr (Some d) \<longrightarrow> changed_only a b d \<and> d \<noteq> [])"
  using difObjects_same[of t a a] same_on_refl[of t a] difObjects_one_leaf[of t a b nested leaf]
    difObjects_changed_only[of t a b d]
  by blast

theorem settings_diff_minimal_witness:
  "matches template0 settings_a \<and> matches template0 settings_b \<and> nan_free template0 settings_a \<and>
   differs_only_at template0 ''nested'' ''leaf'' settings_a settings_b \<and>
   difObjects template0 settings_a settings_a = Inr None \<and>
   difObjects template0 settings_a settings_b = Inr (Some [(''nested'', Sub [(''leaf'', Leaf (Num 8))])]) \<and>
   changed_only settings_a settings_b [(''nested'', Sub [(''leaf'', Leaf (Num 8))])]"
proof -
  have h: "matches template0 settings_a" "matches template0 settings_b"
    "nan_free template0 settings_a"
    "differs_only_at template0 ''nested'' ''leaf'' settings_a settings_b"
    by code_simp+
  have v: "field_of (field_of settings_b ''nested'') ''leaf'' = Num 8"
    by code_simp
  from settings_diff_minimal[of template0 settings_a settings_b "''nested''" "''leaf''"
      "[(''nested'', Sub [(''leaf'', Leaf (Num 8))])]"] h v
  show ?thesis by simp
qed

section \<open>Responses of the modelled handlers\<close>

text \<open>The handlers that cannot reject send one envelope, with the id of the request, to
  the socket of the request.\<close>

lemma lookup_cache_sent: "lookup_cache ext q s = (cache, s1) \<Longrightarrow> sent s1 = sent s"
  by (cases "queries s (query_hash ext q)") (auto simp: lookup_cache_def Let_def)

lemma browse_handlers_respond_once:
  "\<exists>res. sent (BROWSE_VIEW_PAGE ext target req_id q offset limit s) = sent s @ [(target, res)]
         \<and> res_id res = req_id"
  "\<exists>res. sent (BROWSE_VIEW_INDEX ext target req_id q gameId s) = sent s @ [(target, res)]
         \<and> res_id res = req_id"
  "\<exists>res. sent (QUICK_SEARCH ext target req_id q prefix s) = sent s @ [(target, res)]
         \<and> res_id res = req_id"
proof -
  obtain cache s1 where l: "lookup_cache ext (copy_query q) s = (cache, s1)"
    by (cases "lookup_cache ext (copy_query q) s")
  then have e: "sent s1 = sent s" by (rule lookup_cache_sent)
  show "\<exists>res. sent (BROWSE_VIEW_PAGE ext target req_id q offset limit s) = sent s @ [(target, res)]
         \<and> res_id res = req_id"
    by (simp add: BROWSE_VIEW_PAGE_def l e)
  show "\<exists>res. sent (BROWSE_VIEW_INDEX ext target req_id q gameId s) = sent s @ [(target, res)]
         \<and> res_id res = req_id"
    by (simp add: BROWSE_VIEW_INDEX_def l e)
  show "\<exists>res. sent (QUICK_SEARCH ext target req_id q prefix s) = sent s @ [(target, res)]
         \<and> res_id res = req_id"
    by (simp add: QUICK_SEARCH_def l e split: prod.splits)
qed

lemma catalog_handlers_respond_once:
  "\<exists>res. sent (SAVE_GAME ext target req_id g lib s) = sent s @ [(target, res)]
         \<and> res_id res = req_id"
  "\<exists>res. sent (DELETE_GAME ext target req_id gid s) = sent s @ [(target, res)]
         \<and> res_id res = req_id"
  "\<exists>res. sent (DUPLICATE_GAME ext target req_id gid dupe s) = sent s @ [(target, res)]
         \<and> res_id res = req_id"
proof -
  show "\<exists>res. sent (SAVE_GAME ext target req_id g lib s) = sent s @ [(target, res)]
         \<and> res_id res = req_id"
    by (simp add: SAVE_GAME_def Let_def)
  show "\<exists>res. sent (DELETE_GAME ext target req_id gid s) = sent s @ [(target, res)]
         \<and> res_id res = req_id"
    by (simp add: DELETE_GAME_def Let_def)
  show "\<exists>res. sent (DUPLICATE_GAME ext target req_id gid dupe s) = sent s @ [(target, res)]
         \<and> res_id res = req_id"
    by (cases "findGame ext gid (db s)") (simp_all add: DUPLICATE_GAME_def Let_def)
qed

lemma INIT_LISTEN_responds_once:
  "\<exists>res. sent (INIT_LISTEN target req_id s) = sent s @ [(target, res)] \<and> res_id res = req_id"
  by (simp add: INIT_LISTEN_fields)

text \<open>The delete-playlist handler sends one envelope when it resolves and none when it
  rejects.\<close>

lemma DELETE_PLAYLIST_outcome:
  "(case DELETE_PLAYLIST target req_id name s of
      Resolved s' \<Rightarrow> (\<exists>res. sent s' = sent s @ [(target, res)] \<and> res_id res = req_id)
    | Rejected e s' \<Rightarrow> sent s' = sent s)"
proof -
  define deleted where "deleted =
        (case playlistFolder s of
           None \<Rightarrow> Inr (files s)
         | Some folder \<Rightarrow>
            (if folder \<noteq> [] then deletePlaylist name folder (playlists s) (files s)
             else Inr (files s)))"
  have "DELETE_PLAYLIST target req_id name s =
          (case deleted of
             Inl e \<Rightarrow> Rejected e s
           | Inr fs \<Rightarrow>
              Resolved (respond target
                \<lparr>res_id = req_id, res_type = GENERIC_RESPONSE, res_data = NoData\<rparr>
                (s\<lparr>files := fs\<rparr>)))"
    by (simp add: DELETE_PLAYLIST_def deleted_def)
  then show ?thesis by (cases deleted) simp_all
qed

text \<open>The guard of \<open>deletePlaylist\<close>: the name \<open>../x.json\<close> is joined to \<open>x.json\<close>, a path
  that does not start with the folder, so nothing is unlinked and the handler responds.\<close>

lemma delete_playlist_guard:
  "path_join [''playlists'', ''../x.json''] = ''x.json'' \<and>
   (case DELETE_PLAYLIST 7 ''req-1'' ''../x.json'' climbing_state of
      Rejected e s \<Rightarrow> (Some e, sent s, files s ''x.json'')
    | Resolved s \<Rightarrow> (None, sent s, files s ''x.json''))
   = (None, [(7, \<lparr>res_id = ''req-1'', res_type = GENERIC_RESPONSE, res_data = NoData\<rparr>)],
      Some (Blob []))"
  by code_simp

text \<open>What quick search computes: the first entry, from index \<open>i\<close> on, whose lower-cased
  title starts with the prefix as it was sent.\<close>

lemma quick_search_loop_first:
  "quick_search_loop gs prefix i =
     (case find (\<lambda>j. startsWith (toLowerCase (title (gs ! j))) prefix) [i..<length gs] of
        None \<Rightarrow> (None, None)
      | Some j \<Rightarrow> (Some (game_id (gs ! j)), Some j))"
proof (induction gs prefix i rule: quick_search_loop.induct)
  case (1 gs prefix i)
  show ?case
  proof (cases "i < length gs")
    case True
    then have u: "[i..<length gs] = i # [i + 1..<length gs]" by (simp add: upt_conv_Cons)
    show ?thesis
    proof (cases "startsWith (toLowerCase (title (gs ! i))) prefix")
      case hit: True
      with True u show ?thesis by (subst quick_search_loop.simps) simp
    next
      case miss: False
      with True u "1.IH"[OF True miss] show ?thesis by (subst quick_search_loop.simps) simp
    qed
  next
    case False
    then show ?thesis by (subst quick_search_loop.simps) simp
  qed
qed

end
